theory Spec2Isabelle
  imports Complex_Main "HOL-Library.Multiset"
begin

section \<open>Data model (models.py, config.py)\<close>

text \<open>
  Python floats are modelled as \<^typ>\<open>real\<close>, Python ints as \<^typ>\<open>int\<close>, \<open>Optional[T]\<close> as
  \<^typ>\<open>'a option\<close>, deques and lists as HOL lists (head of the list = left end of the deque).
  Exceptions are values of \<open>py_error\<close>; a function that can raise returns \<open>py_error + 'a\<close>.
  Objects are modelled by value: every request object is held in one place at a time (one
  queue slot, the in-service slot or a completed list), so mutation through a reference is
  an update of the value at that place.
\<close>

datatype py_error = ValueError | ZeroDivisionError | AssertionError

datatype RequestType =
    LANE_GUIDANCE | NAVIGATION_REROUTING | PARKING_DISCOVERY | EV_CHARGER_BOOKING
  | TOLLING_CHARGING | EMERGENCY_SOS | INCIDENT_UPLOAD | COLLISION_ALERT | SPEED_LIMIT_AR
  | ROAD_HAZARD_BROADCAST | DROWSINESS_ALERT | SURROUND_VIEW | SCHOOL_ZONE_ADVISORY
  | WEATHER_AWARE_ROUTING | TRIP_SUMMARY_ANALYTICS

record Request =
  request_id :: int
  request_type :: RequestType
  source_position :: "real \<times> real"
  arrival_time :: real
  processing_demand :: real
  remaining_demand :: real
  data_size :: real
  is_emergency :: bool
  latency_slo :: "real option"
  priority_class :: int
  relative_deadline_s :: real
  absolute_deadline :: real
  assigned_fog_id :: "int option"
  start_time :: "real option"
  completion_time :: "real option"

definition latency :: "Request \<Rightarrow> real option" where
  "latency r = (case completion_time r of None \<Rightarrow> None | Some c \<Rightarrow> Some (c - arrival_time r))"

definition deadline_met :: "Request \<Rightarrow> bool option" where
  "deadline_met r =
     (case completion_time r of None \<Rightarrow> None | Some c \<Rightarrow> Some (c \<le> absolute_deadline r))"

section \<open>Fog node (topology.py)\<close>

text \<open>
  The fields of \<open>FogNode\<close> that some method reads or writes. The attributes \<open>sla_window_TW\<close> ...
  \<open>sla_eps\<close> exist on a node only when \<open>build_grid_topology\<close> has set them; \<open>None\<close> is the
  absent attribute, for which \<open>getattr\<close> yields its default.
\<close>

record FogNode =
  node_id :: int
  position :: "real \<times> real"
  cpu_capacity :: real
  link_capacity :: "real option"
  max_queue_length :: "int option"
  scheduler :: string
  queue :: "Request list"
  emergency_queue :: "Request list"
  normal_queue :: "Request list"
  priority_queue_3 :: "Request list"
  priority_queue_2 :: "Request list"
  priority_queue_1 :: "Request list"
  dynamic_queue_3 :: "Request list"
  dynamic_queue_2 :: "Request list"
  dynamic_queue_1 :: "Request list"
  alpha :: real
  beta :: real
  gamma :: real
  lambda_1 :: real
  lambda_2 :: real
  lambda_3 :: real
  eta_1 :: real
  eta_2 :: real
  eta_3 :: real
  completed_history :: "Request list"
  last_window_update :: real
  current_request :: "Request option"
  current_request_start_time :: "real option"
  current_link_load :: real
  total_rejected_due_to_deadline :: int
  total_offloaded_to_cloud :: int
  sla_window_TW :: "real option"
  sla_J1_max :: "real option"
  sla_J2_max_s :: "real option"
  sla_J3_max :: "real option"
  sla_eta1 :: "real option"
  sla_eta2 :: "real option"
  sla_eta3 :: "real option"
  sla_eps :: "real option"

text \<open>\<open>FogNode.__init__\<close>.\<close>

definition FogNode_init ::
  "int \<Rightarrow> real \<times> real \<Rightarrow> real \<Rightarrow> real option \<Rightarrow> int option \<Rightarrow> string \<Rightarrow> FogNode" where
  "FogNode_init nid pos cpu link maxq sched =
     \<lparr> node_id = nid, position = pos, cpu_capacity = cpu, link_capacity = link,
       max_queue_length = maxq, scheduler = sched,
       queue = [], emergency_queue = [], normal_queue = [],
       priority_queue_3 = [], priority_queue_2 = [], priority_queue_1 = [],
       dynamic_queue_3 = [], dynamic_queue_2 = [], dynamic_queue_1 = [],
       alpha = 1 / 3, beta = 1 / 3, gamma = 1 / 3,
       lambda_1 = 0, lambda_2 = 0, lambda_3 = 0,
       eta_1 = 1 / 100, eta_2 = 1 / 100, eta_3 = 1 / 100,
       completed_history = [], last_window_update = 0,
       current_request = None, current_request_start_time = None,
       current_link_load = 0,
       total_rejected_due_to_deadline = 0, total_offloaded_to_cloud = 0,
       sla_window_TW = None, sla_J1_max = None, sla_J2_max_s = None, sla_J3_max = None,
       sla_eta1 = None, sla_eta2 = None, sla_eta3 = None, sla_eps = None \<rparr>"

definition reset_step_state :: "FogNode \<Rightarrow> FogNode" where
  "reset_step_state n = n\<lparr>current_link_load := 0\<rparr>"

definition can_accept_request :: "FogNode \<Rightarrow> Request \<Rightarrow> real \<Rightarrow> bool" where
  "can_accept_request n request time_step =
     (case link_capacity n of
        None \<Rightarrow> True
      | Some lc \<Rightarrow> current_link_load n + data_size request \<le> lc * time_step)"

text \<open>\<open>self.scheduler in ("DYNAMIC_PRIORITY", "SLA-DWP-Fog")\<close>.\<close>

definition is_sla :: "string \<Rightarrow> bool" where
  "is_sla s = (s = ''DYNAMIC_PRIORITY'' \<or> s = ''SLA-DWP-Fog'')"

definition get_total_queue_length :: "FogNode \<Rightarrow> int" where
  "get_total_queue_length n =
     (if is_sla (scheduler n) then
        int (length (dynamic_queue_3 n)) + int (length (dynamic_queue_2 n))
          + int (length (dynamic_queue_1 n))
          + (if current_request n \<noteq> None then 1 else 0)
      else if scheduler n = ''STATIC_PRIORITY'' then
        int (length (priority_queue_3 n)) + int (length (priority_queue_2 n))
          + int (length (priority_queue_1 n))
      else if scheduler n = ''EMERGENCY_FIRST'' then
        int (length (emergency_queue n)) + int (length (normal_queue n))
      else int (length (queue n)))"

definition queue_length :: "FogNode \<Rightarrow> int" where
  "queue_length n = get_total_queue_length n"

text \<open>
  \<open>_admission_control_check_timebased\<close>: the two nested loops add the remaining demand of
  the queued requests in the order class 3, class 2, class 1, then the in-service request.
  The float division raises \<open>ZeroDivisionError\<close> when \<open>cpu_capacity\<close> is zero.
\<close>

definition admission_control_check_timebased :: "FogNode \<Rightarrow> Request \<Rightarrow> py_error + bool" where
  "admission_control_check_timebased n request =
     (let total_remaining =
            foldl (\<lambda>acc req. acc + remaining_demand req) 0
              (dynamic_queue_3 n @ dynamic_queue_2 n @ dynamic_queue_1 n);
          total_remaining =
            (case current_request n of
               None \<Rightarrow> total_remaining
             | Some c \<Rightarrow> total_remaining + remaining_demand c)
      in if cpu_capacity n = 0 then Inl ZeroDivisionError
         else
           let predicted_work_time = (total_remaining + processing_demand request) / cpu_capacity n;
               predicted_finish = arrival_time request + predicted_work_time
           in Inr (predicted_finish \<le> absolute_deadline request))"

text \<open>\<open>_priority_score\<close>.\<close>

definition priority_score :: "FogNode \<Rightarrow> Request \<Rightarrow> real \<Rightarrow> real" where
  "priority_score n request current_time =
     (let g = (if priority_class request = 3 then 1
               else if priority_class request = 2 then 1 / 2 else 0);
          Di = max (1 / 1000000000) (relative_deadline_s request);
          u = 1 - (absolute_deadline request - current_time) / Di;
          u = min 1 (max 0 u);
          w = (current_time - arrival_time request) / Di;
          w = min 1 (max 0 w)
      in alpha n * g + beta n * u + gamma n * w)"

text \<open>Appending to, and pushing on the left of, the per-class queue of a request.\<close>

definition dynamic_append :: "Request \<Rightarrow> FogNode \<Rightarrow> FogNode" where
  "dynamic_append r n =
     (if priority_class r = 3 then n\<lparr>dynamic_queue_3 := dynamic_queue_3 n @ [r]\<rparr>
      else if priority_class r = 2 then n\<lparr>dynamic_queue_2 := dynamic_queue_2 n @ [r]\<rparr>
      else n\<lparr>dynamic_queue_1 := dynamic_queue_1 n @ [r]\<rparr>)"

definition dynamic_appendleft :: "Request \<Rightarrow> FogNode \<Rightarrow> FogNode" where
  "dynamic_appendleft r n =
     (if priority_class r = 3 then n\<lparr>dynamic_queue_3 := r # dynamic_queue_3 n\<rparr>
      else if priority_class r = 2 then n\<lparr>dynamic_queue_2 := r # dynamic_queue_2 n\<rparr>
      else n\<lparr>dynamic_queue_1 := r # dynamic_queue_1 n\<rparr>)"

text \<open>
  \<open>deque.pop()\<close> on the class queue of the request just appended: the queue is not empty
  there, so \<open>pop\<close> cannot raise and removes the right end.
\<close>

definition dynamic_pop :: "Request \<Rightarrow> FogNode \<Rightarrow> FogNode" where
  "dynamic_pop r n =
     (if priority_class r = 3 then n\<lparr>dynamic_queue_3 := butlast (dynamic_queue_3 n)\<rparr>
      else if priority_class r = 2 then n\<lparr>dynamic_queue_2 := butlast (dynamic_queue_2 n)\<rparr>
      else n\<lparr>dynamic_queue_1 := butlast (dynamic_queue_1 n)\<rparr>)"

text \<open>
  The appends of the Static-Priority branch (lines 173-179) and of the Emergency-First
  branch (lines 181-185), and the link-load update of lines 192-193.
\<close>

definition priority_append :: "Request \<Rightarrow> FogNode \<Rightarrow> FogNode" where
  "priority_append r n =
     (if priority_class r = 3 then n\<lparr>priority_queue_3 := priority_queue_3 n @ [r]\<rparr>
      else if priority_class r = 2 then n\<lparr>priority_queue_2 := priority_queue_2 n @ [r]\<rparr>
      else n\<lparr>priority_queue_1 := priority_queue_1 n @ [r]\<rparr>)"

definition emergency_append :: "Request \<Rightarrow> FogNode \<Rightarrow> FogNode" where
  "emergency_append r n =
     (if is_emergency r then n\<lparr>emergency_queue := emergency_queue n @ [r]\<rparr>
      else n\<lparr>normal_queue := normal_queue n @ [r]\<rparr>)"

definition add_link_load :: "Request \<Rightarrow> FogNode \<Rightarrow> FogNode" where
  "add_link_load r n =
     (case link_capacity n of
        None \<Rightarrow> n
      | Some _ \<Rightarrow> n\<lparr>current_link_load := current_link_load n + data_size r\<rparr>)"

text \<open>
  \<open>enqueue_request\<close>. The result is the node after the call and the returned tuple
  \<open>(success, reason)\<close>. The SLA branch returns from inside the branch (line 171); the other
  three branches fall through to the link-load update of lines 192-193.
\<close>

definition enqueue_request ::
  "FogNode \<Rightarrow> Request \<Rightarrow> real \<Rightarrow> py_error + (FogNode \<times> bool \<times> string option)" where
  "enqueue_request n request time_step =
     (let total_queue_len = get_total_queue_length n in
      if (case max_queue_length n of None \<Rightarrow> False | Some m \<Rightarrow> total_queue_len \<ge> m)
      then Inr (n, False, Some ''queue_full'')
      else if is_sla (scheduler n) then
        (case admission_control_check_timebased n request of
           Inl e \<Rightarrow> Inl e
         | Inr False \<Rightarrow>
             Inr (n\<lparr>total_rejected_due_to_deadline := total_rejected_due_to_deadline n + 1\<rparr>,
                  False, Some ''admission_rejected'')
         | Inr True \<Rightarrow>
             (let n1 = dynamic_append request n in
              case current_request n1 of
                None \<Rightarrow> Inr (n1, True, None)
              | Some cur \<Rightarrow>
                  (let new_score = priority_score n1 request (arrival_time request);
                       run_score = priority_score n1 cur (arrival_time request)
                   in if new_score > run_score then
                        (let n2 = dynamic_appendleft cur n1;
                             n3 = dynamic_pop request n2;
                             request' = (if start_time request = None
                                         then request\<lparr>start_time := Some (arrival_time request)\<rparr>
                                         else request)
                         in Inr (n3\<lparr>current_request := Some request'\<rparr>, True, None))
                      else Inr (n1, True, None))))
      else if scheduler n = ''STATIC_PRIORITY'' then
        Inr (add_link_load request (priority_append request n), True, None)
      else if scheduler n = ''EMERGENCY_FIRST'' then
        Inr (add_link_load request (emergency_append request n), True, None)
      else if (case max_queue_length n of None \<Rightarrow> False
               | Some m \<Rightarrow> int (length (queue n)) \<ge> m)
      then Inr (n, False, Some ''queue_full'')
      else Inr (add_link_load request (n\<lparr>queue := queue n @ [request]\<rparr>), True, None))"

text \<open>
  The loop shared by the FIFO, Emergency-First and Static-Priority branches of
  \<open>process_one_step\<close>: \<open>while queue and capacity_left > 0\<close> over one deque. The result is
  the deque after the loop, the requests completed by the loop in order, and the capacity
  left. After a partial service \<open>capacity_left\<close> is \<open>0.0\<close>, which ends the loop.
\<close>

fun process_queue ::
  "real \<Rightarrow> real \<Rightarrow> real \<Rightarrow> Request list \<Rightarrow> Request list \<times> Request list \<times> real" where
  "process_queue current_time time_step capacity_left [] = ([], [], capacity_left)"
| "process_queue current_time time_step capacity_left (req # rest) =
     (if capacity_left > 0 then
        (let req = (if start_time req = None then req\<lparr>start_time := Some current_time\<rparr>
                    else req)
         in if remaining_demand req \<le> capacity_left then
              (case process_queue current_time time_step
                      (capacity_left - remaining_demand req) rest of
                 (q, completed, c) \<Rightarrow>
                   (q,
                    req\<lparr>remaining_demand := 0,
                        completion_time := Some (current_time + time_step)\<rparr> # completed,
                    c))
            else (req\<lparr>remaining_demand := remaining_demand req - capacity_left\<rparr> # rest, [], 0))
      else (req # rest, [], capacity_left))"

text \<open>
  \<open>_select_next_request_sla\<close>: one pass over the candidates (class 3, then 2, then 1).
  The accumulator is \<open>(best_req, best_score)\<close>; \<open>None\<close> stands for the initial
  \<open>best_req = None, best_score = -inf\<close>, which every score exceeds.
\<close>

definition select_step ::
  "FogNode \<Rightarrow> real \<Rightarrow> (Request \<times> real) option \<Rightarrow> Request \<Rightarrow> (Request \<times> real) option" where
  "select_step n current_time best req =
     (let score = priority_score n req current_time in
      case best of
        None \<Rightarrow> Some (req, score)
      | Some (best_req, best_score) \<Rightarrow>
          if score > best_score then Some (req, score)
          else if score = best_score then
            (let slack_best = absolute_deadline best_req - current_time;
                 slack_new = absolute_deadline req - current_time
             in if slack_new < slack_best then Some (req, best_score)
                else if slack_new = slack_best then
                  (let wait_best = current_time - arrival_time best_req;
                       wait_new = current_time - arrival_time req
                   in if wait_new > wait_best then Some (req, best_score)
                      else Some (best_req, best_score))
                else Some (best_req, best_score))
          else Some (best_req, best_score))"

definition select_next_request_sla :: "FogNode \<Rightarrow> real \<Rightarrow> Request option" where
  "select_next_request_sla n current_time =
     map_option fst
       (foldl (select_step n current_time) None
          (dynamic_queue_3 n @ dynamic_queue_2 n @ dynamic_queue_1 n))"

text \<open>
  \<open>deque.remove(x)\<close> removes the first element equal to \<open>x\<close> (dataclass equality compares
  all fields) and raises \<open>ValueError\<close> when there is none.
\<close>

definition deque_remove :: "Request \<Rightarrow> Request list \<Rightarrow> py_error + Request list" where
  "deque_remove x q = (if x \<in> set q then Inr (remove1 x q) else Inl ValueError)"

definition dynamic_remove :: "Request \<Rightarrow> FogNode \<Rightarrow> py_error + FogNode" where
  "dynamic_remove r n =
     (if priority_class r = 3 then
        (case deque_remove r (dynamic_queue_3 n) of
           Inl e \<Rightarrow> Inl e | Inr q \<Rightarrow> Inr (n\<lparr>dynamic_queue_3 := q\<rparr>))
      else if priority_class r = 2 then
        (case deque_remove r (dynamic_queue_2 n) of
           Inl e \<Rightarrow> Inl e | Inr q \<Rightarrow> Inr (n\<lparr>dynamic_queue_2 := q\<rparr>))
      else
        (case deque_remove r (dynamic_queue_1 n) of
           Inl e \<Rightarrow> Inl e | Inr q \<Rightarrow> Inr (n\<lparr>dynamic_queue_1 := q\<rparr>)))"

text \<open>
  The first half of the body of the SLA loop (lines 362-377): serve the in-service request.
  The boolean is \<open>True\<close> when the body leaves the loop by \<open>break\<close>.
\<close>

definition sla_serve_current ::
  "real \<Rightarrow> real \<Rightarrow> FogNode \<Rightarrow> real \<Rightarrow> Request list
     \<Rightarrow> bool \<times> FogNode \<times> real \<times> Request list" where
  "sla_serve_current current_time time_step n capacity_left completed =
     (case current_request n of
        None \<Rightarrow> (False, n, capacity_left, completed)
      | Some cur \<Rightarrow>
          if remaining_demand cur \<le> capacity_left then
            (let capacity_used = remaining_demand cur;
                 cur' = cur\<lparr>remaining_demand := 0,
                            completion_time := Some (current_time + time_step)\<rparr>
             in (False,
                 n\<lparr>completed_history := completed_history n @ [cur'],
                   current_request := None, current_request_start_time := None\<rparr>,
                 capacity_left - capacity_used, completed @ [cur']))
          else
            (True,
             n\<lparr>current_request :=
                  Some (cur\<lparr>remaining_demand := remaining_demand cur - capacity_left\<rparr>)\<rparr>,
             0, completed))"

definition dynamic_total :: "FogNode \<Rightarrow> nat" where
  "dynamic_total n =
     length (dynamic_queue_3 n) + length (dynamic_queue_2 n) + length (dynamic_queue_1 n)"

text \<open>
  The second half of the body (lines 379-397) follows the first: select the next request,
  take it out of its class queue and put it in service. \<open>sla_loop_body\<close> is one pass
  through the body: \<open>Inl\<close> when the pass leaves the loop (by \<open>break\<close>, with the node and the
  completed list, or by an exception), \<open>Inr\<close> with the state for the next test of the loop
  condition otherwise.
\<close>

definition sla_loop_body ::
  "real \<Rightarrow> real \<Rightarrow> FogNode \<Rightarrow> real \<Rightarrow> Request list
     \<Rightarrow> (py_error + (FogNode \<times> Request list)) + (FogNode \<times> real \<times> Request list)" where
  "sla_loop_body current_time time_step n capacity_left completed =
     (case sla_serve_current current_time time_step n capacity_left completed of
        (True, n1, capacity_left1, completed1) \<Rightarrow> Inl (Inr (n1, completed1))
      | (False, n1, capacity_left1, completed1) \<Rightarrow>
          (case select_next_request_sla n1 current_time of
             None \<Rightarrow> Inl (Inr (n1, completed1))
           | Some next_req \<Rightarrow>
               (case dynamic_remove next_req n1 of
                  Inl e \<Rightarrow> Inl (Inl e)
                | Inr n2 \<Rightarrow>
                    (let next_req' =
                           (if start_time next_req = None
                            then next_req\<lparr>start_time := Some current_time\<rparr>
                            else next_req)
                     in Inr (n2\<lparr>current_request := Some next_req',
                                current_request_start_time := Some current_time\<rparr>,
                             capacity_left1, completed1)))))"

text \<open>
  The SLA loop \<open>while capacity_left > 0\<close> (lines 360-397). Every pass that does not leave
  the loop takes one request out of the class queues, so the loop ends.
\<close>

function sla_loop ::
  "real \<Rightarrow> real \<Rightarrow> FogNode \<Rightarrow> real \<Rightarrow> Request list \<Rightarrow> py_error + (FogNode \<times> Request list)" where
  "sla_loop current_time time_step n capacity_left completed =
     (if capacity_left > 0 then
        (case sla_loop_body current_time time_step n capacity_left completed of
           Inl result \<Rightarrow> result
         | Inr (n', capacity_left', completed') \<Rightarrow>
             sla_loop current_time time_step n' capacity_left' completed')
      else Inr (n, completed))"
  by pat_completeness auto
termination
proof (relation "measure (\<lambda>(current_time, time_step, n, capacity_left, completed).
                   dynamic_total n)", goal_cases)
  case 1
  show ?case by simp
next
  case 2
  have serve: "\<And>t dt n cap comp b n1 r.
      sla_serve_current t dt n cap comp = (b, n1, r) \<Longrightarrow> dynamic_total n1 = dynamic_total n"
    by (auto simp add: sla_serve_current_def dynamic_total_def Let_def
          split: option.splits if_splits)
  have rm: "\<And>x q q'. deque_remove x q = Inr q' \<Longrightarrow> Suc (length q') = length q"
    by (auto simp add: deque_remove_def length_remove1 split: if_splits)
      (metis length_pos_if_in_set Suc_pred)
  have remove: "\<And>r n n'. dynamic_remove r n = Inr n' \<Longrightarrow> dynamic_total n' < dynamic_total n"
    by (auto simp add: dynamic_remove_def dynamic_total_def split: if_splits sum.splits
          dest!: rm)
  have body: "\<And>t dt n cap comp n' r.
      sla_loop_body t dt n cap comp = Inr (n', r) \<Longrightarrow> dynamic_total n' < dynamic_total n"
    by (auto simp add: sla_loop_body_def Let_def dynamic_total_def
          split: prod.splits bool.splits option.splits sum.splits
          dest!: serve remove)
  from 2 show ?case
    by (auto dest!: body)
qed

declare sla_loop.simps [simp del]

text \<open>
  \<open>_update_sla_weights_window\<close>. \<open>getattr(self, name, default)\<close> reads the optional
  attribute. The normalisation divides by \<open>S\<close> and raises \<open>ZeroDivisionError\<close> when \<open>S\<close> is
  zero.
\<close>

definition getattr :: "'a option \<Rightarrow> 'a \<Rightarrow> 'a" where
  "getattr attr dflt = (case attr of None \<Rightarrow> dflt | Some v \<Rightarrow> v)"

definition mean :: "real list \<Rightarrow> real" where
  "mean xs = sum_list xs / real (length xs)"

definition window_tasks_of :: "FogNode \<Rightarrow> real \<Rightarrow> Request list" where
  "window_tasks_of n current_time =
     (let TW = getattr (sla_window_TW n) 10 in
      filter (\<lambda>r. case completion_time r of None \<Rightarrow> False | Some c \<Rightarrow> c \<ge> current_time - TW)
        (completed_history n))"

definition sla_J1 :: "Request list \<Rightarrow> real" where
  "sla_J1 window_tasks =
     (let emer = filter (\<lambda>r. priority_class r = 3) window_tasks in
      if emer \<noteq> [] then
        real (length (filter (\<lambda>r. deadline_met r = Some False) emer)) / real (length emer)
      else 0)"

definition sla_J2 :: "Request list \<Rightarrow> real" where
  "sla_J2 window_tasks =
     (let lats = List.map_filter latency window_tasks in
      if lats \<noteq> [] then mean lats else 0)"

definition sla_J3 :: "Request list \<Rightarrow> real" where
  "sla_J3 window_tasks =
     (let normal = List.map_filter latency (filter (\<lambda>r. priority_class r = 1) window_tasks);
          emer_l = List.map_filter latency (filter (\<lambda>r. priority_class r = 3) window_tasks)
      in if emer_l \<noteq> [] \<and> normal \<noteq> [] then mean normal / max (1 / 1000000000) (mean emer_l)
         else 1)"

definition update_sla_weights_window :: "FogNode \<Rightarrow> real \<Rightarrow> py_error + FogNode" where
  "update_sla_weights_window n current_time =
     (let J1_max = getattr (sla_J1_max n) (1 / 10);
          J2_max_s = getattr (sla_J2_max_s n) 5;
          J3_max = getattr (sla_J3_max n) 2;
          eta1 = getattr (sla_eta1 n) (eta_1 n);
          eta2 = getattr (sla_eta2 n) (eta_2 n);
          eta3 = getattr (sla_eta3 n) (eta_3 n);
          eps = getattr (sla_eps n) (1 / 1000000);
          window_tasks = window_tasks_of n current_time
      in if window_tasks = [] then Inr n
         else
           (let J1 = sla_J1 window_tasks;
                J2 = sla_J2 window_tasks;
                J3 = sla_J3 window_tasks;
                l1 = max 0 (lambda_1 n + eta1 * (J1 - J1_max));
                l2 = max 0 (lambda_2 n + eta2 * (J2 - J2_max_s));
                l3 = max 0 (lambda_3 n + eta3 * (J3 - J3_max));
                S = (l1 + eps) + (l2 + eps) + (l3 + eps)
            in if S = 0 then Inl ZeroDivisionError
               else Inr (n\<lparr>lambda_1 := l1, lambda_2 := l2, lambda_3 := l3,
                           alpha := (l1 + eps) / S, beta := (l2 + eps) / S,
                           gamma := (l3 + eps) / S\<rparr>)))"

text \<open>
  The window-boundary block at the end of the SLA branch of \<open>process_one_step\<close>
  (lines 398-402).
\<close>

definition sla_window_boundary :: "FogNode \<Rightarrow> real \<Rightarrow> py_error + FogNode" where
  "sla_window_boundary n current_time =
     (let TW = getattr (sla_window_TW n) 10 in
      if current_time - last_window_update n \<ge> TW then
        (case update_sla_weights_window n current_time of
           Inl e \<Rightarrow> Inl e
         | Inr n1 \<Rightarrow> Inr (n1\<lparr>last_window_update := current_time\<rparr>))
      else Inr n)"

text \<open>\<open>process_one_step\<close>: the node after the step and the list of completed requests.\<close>

definition process_one_step ::
  "FogNode \<Rightarrow> real \<Rightarrow> real \<Rightarrow> py_error + (FogNode \<times> Request list)" where
  "process_one_step n current_time time_step =
     (let capacity_left = cpu_capacity n * time_step in
      if is_sla (scheduler n) then
        (case sla_loop current_time time_step n capacity_left [] of
           Inl e \<Rightarrow> Inl e
         | Inr (n1, completed) \<Rightarrow>
             (case sla_window_boundary n1 current_time of
                Inl e \<Rightarrow> Inl e
              | Inr n2 \<Rightarrow> Inr (n2, completed)))
      else if scheduler n = ''STATIC_PRIORITY'' then
        (case process_queue current_time time_step capacity_left (priority_queue_3 n) of
           (q3, c3, cap3) \<Rightarrow>
             (case process_queue current_time time_step cap3 (priority_queue_2 n) of
                (q2, c2, cap2) \<Rightarrow>
                  (case process_queue current_time time_step cap2 (priority_queue_1 n) of
                     (q1, c1, cap1) \<Rightarrow>
                       Inr (n\<lparr>priority_queue_3 := q3, priority_queue_2 := q2,
                              priority_queue_1 := q1\<rparr>,
                            c3 @ c2 @ c1))))
      else if scheduler n = ''EMERGENCY_FIRST'' then
        (case process_queue current_time time_step capacity_left (emergency_queue n) of
           (qe, ce, cape) \<Rightarrow>
             (case process_queue current_time time_step cape (normal_queue n) of
                (qn, cn, capn) \<Rightarrow>
                  Inr (n\<lparr>emergency_queue := qe, normal_queue := qn\<rparr>, ce @ cn)))
      else
        (case process_queue current_time time_step capacity_left (queue n) of
           (q, c, cap) \<Rightarrow> Inr (n\<lparr>queue := q\<rparr>, c)))"

section \<open>Topology construction and routing (config.py, topology.py)\<close>

text \<open>
  \<open>SimulationConfig\<close>. The field \<open>cfg_x\<close> is the attribute \<open>x\<close> of the configuration; the
  prefix keeps the names apart from the node attributes of the same name.
\<close>

record SimulationConfig =
  cfg_sim_time :: real
  cfg_time_step :: real
  cfg_time_step_ms :: "int option"
  cfg_random_seed :: int
  cfg_city_width :: real
  cfg_city_height :: real
  cfg_num_fog_nodes_x :: int
  cfg_num_fog_nodes_y :: int
  cfg_fog_cpu_capacity :: real
  cfg_fog_link_capacity :: real
  cfg_fog_max_queue_length :: "int option"
  cfg_avg_requests_per_step :: real
  cfg_max_requests_per_step :: int
  cfg_scheduler :: string
  cfg_sla_window_TW :: real
  cfg_sla_J1_max :: real
  cfg_sla_J2_max_s :: real
  cfg_sla_J3_max :: real
  cfg_sla_eta1 :: real
  cfg_sla_eta2 :: real
  cfg_sla_eta3 :: real
  cfg_sla_eps :: real

text \<open>The defaults of the dataclass.\<close>

definition default_config :: SimulationConfig where
  "default_config =
     \<lparr> cfg_sim_time = 3600, cfg_time_step = 1, cfg_time_step_ms = None, cfg_random_seed = 42,
       cfg_city_width = 1000, cfg_city_height = 1000,
       cfg_num_fog_nodes_x = 2, cfg_num_fog_nodes_y = 2,
       cfg_fog_cpu_capacity = 10, cfg_fog_link_capacity = 50,
       cfg_fog_max_queue_length = None,
       cfg_avg_requests_per_step = 5, cfg_max_requests_per_step = 200,
       cfg_scheduler = ''FIFO'',
       cfg_sla_window_TW = 10, cfg_sla_J1_max = 1 / 10, cfg_sla_J2_max_s = 5,
       cfg_sla_J3_max = 2, cfg_sla_eta1 = 1 / 100, cfg_sla_eta2 = 1 / 100,
       cfg_sla_eta3 = 1 / 100, cfg_sla_eps = 1 / 1000000 \<rparr>"

text \<open>The body of the two nested loops of \<open>build_grid_topology\<close> for one grid cell.\<close>

definition grid_node :: "SimulationConfig \<Rightarrow> int \<Rightarrow> int \<times> int \<Rightarrow> FogNode" where
  "grid_node config nid cell =
     (let step_x = cfg_city_width config / real_of_int (cfg_num_fog_nodes_x config + 1);
          step_y = cfg_city_height config / real_of_int (cfg_num_fog_nodes_y config + 1);
          x = real_of_int (fst cell + 1) * step_x;
          y = real_of_int (snd cell + 1) * step_y;
          node = FogNode_init nid (x, y) (cfg_fog_cpu_capacity config)
                   (Some (cfg_fog_link_capacity config)) (cfg_fog_max_queue_length config)
                   (cfg_scheduler config)
      in node\<lparr>sla_window_TW := Some (cfg_sla_window_TW config),
              sla_J1_max := Some (cfg_sla_J1_max config),
              sla_J2_max_s := Some (cfg_sla_J2_max_s config),
              sla_J3_max := Some (cfg_sla_J3_max config),
              sla_eta1 := Some (cfg_sla_eta1 config),
              sla_eta2 := Some (cfg_sla_eta2 config),
              sla_eta3 := Some (cfg_sla_eta3 config),
              sla_eps := Some (cfg_sla_eps config)\<rparr>)"

text \<open>
  \<open>build_grid_topology\<close>: the cells are visited with \<open>ix\<close> in the outer and \<open>iy\<close> in the
  inner loop, and \<open>node_id\<close> counts the visits. A \<open>FogTopology\<close> is its list of nodes.
\<close>

definition build_grid_topology :: "SimulationConfig \<Rightarrow> py_error + FogNode list" where
  "build_grid_topology config =
     (if cfg_num_fog_nodes_x config \<le> 0 \<or> cfg_num_fog_nodes_y config \<le> 0 then Inl ValueError
      else
        (let cells = List.product [0 .. cfg_num_fog_nodes_x config - 1]
                       [0 .. cfg_num_fog_nodes_y config - 1]
         in Inr (map (\<lambda>(k, cell). grid_node config (int k) cell)
                   (zip [0 ..< length cells] cells))))"

text \<open>
  \<open>get_nearest_fog\<close>: the index of the chosen node in the list. The accumulator \<open>None\<close>
  is the initial \<open>best_node = None, best_dist = inf\<close>; the final \<open>assert\<close> fails on an
  empty topology.
\<close>

definition nearest_step ::
  "real \<times> real \<Rightarrow> (nat \<times> real) option \<Rightarrow> nat \<times> FogNode \<Rightarrow> (nat \<times> real) option" where
  "nearest_step pos best entry =
     (let dx = fst (position (snd entry)) - fst pos;
          dy = snd (position (snd entry)) - snd pos;
          dist = sqrt (dx * dx + dy * dy)
      in case best of
           None \<Rightarrow> Some (fst entry, dist)
         | Some (best_node, best_dist) \<Rightarrow>
             if dist < best_dist then Some (fst entry, dist) else Some (best_node, best_dist))"

definition get_nearest_fog :: "FogNode list \<Rightarrow> real \<times> real \<Rightarrow> py_error + nat" where
  "get_nearest_fog fog_nodes pos =
     (case foldl (nearest_step pos) None (zip [0 ..< length fog_nodes] fog_nodes) of
        None \<Rightarrow> Inl AssertionError
      | Some (best_node, best_dist) \<Rightarrow> Inr best_node)"

section \<open>Request generator (request_generator.py)\<close>

text \<open>
  The process-wide random state is explicit: a source of the values that successive calls
  of \<open>random.random()\<close> return. \<open>random.uniform(a, b)\<close> is \<open>a + (b - a) * random()\<close>.
\<close>

type_synonym rng = "nat \<Rightarrow> real"

definition random_random :: "rng \<Rightarrow> real \<times> rng" where
  "random_random g = (g 0, \<lambda>k. g (Suc k))"

definition random_uniform :: "real \<Rightarrow> real \<Rightarrow> rng \<Rightarrow> real \<times> rng" where
  "random_uniform a b g = (case random_random g of (u, g') \<Rightarrow> (a + (b - a) * u, g'))"

record RequestGenerator =
  next_request_id :: int
  type_probabilities :: "(RequestType \<times> real) list"

definition initial_type_probabilities :: "(RequestType \<times> real) list" where
  "initial_type_probabilities =
     [(LANE_GUIDANCE, 8 / 100), (NAVIGATION_REROUTING, 8 / 100), (PARKING_DISCOVERY, 5 / 100),
      (EV_CHARGER_BOOKING, 3 / 100), (TOLLING_CHARGING, 2 / 100), (EMERGENCY_SOS, 10 / 100),
      (INCIDENT_UPLOAD, 8 / 100), (COLLISION_ALERT, 8 / 100), (SPEED_LIMIT_AR, 8 / 100),
      (ROAD_HAZARD_BROADCAST, 10 / 100), (DROWSINESS_ALERT, 5 / 100), (SURROUND_VIEW, 5 / 100),
      (SCHOOL_ZONE_ADVISORY, 2 / 100), (WEATHER_AWARE_ROUTING, 2 / 100),
      (TRIP_SUMMARY_ANALYTICS, 0)]"

text \<open>\<open>RequestGenerator.__init__\<close>: it reads no field of the configuration.\<close>

definition RequestGenerator_init :: "SimulationConfig \<Rightarrow> py_error + RequestGenerator" where
  "RequestGenerator_init config =
     (let total_p = sum_list (map snd initial_type_probabilities) in
      if total_p \<le> 0 then Inl ValueError
      else Inr \<lparr> next_request_id = 0,
                 type_probabilities =
                   map (\<lambda>(rt, p). (rt, p / total_p)) initial_type_probabilities \<rparr>)"

fun sample_from :: "real \<Rightarrow> real \<Rightarrow> (RequestType \<times> real) list \<Rightarrow> RequestType option" where
  "sample_from r cumulative [] = None"
| "sample_from r cumulative ((rt, p) # rest) =
     (if r \<le> cumulative + p then Some rt else sample_from r (cumulative + p) rest)"

text \<open>
  \<open>_sample_request_type\<close>; the fallback \<open>type_probabilities[-1][0]\<close> raises \<open>IndexError\<close>
  on an empty table, which \<open>__init__\<close> never builds; the model then yields the last entry of
  the initial table.
\<close>

definition sample_request_type :: "RequestGenerator \<Rightarrow> rng \<Rightarrow> RequestType \<times> rng" where
  "sample_request_type gen g =
     (case random_random g of
        (r, g') \<Rightarrow>
          (case sample_from r 0 (type_probabilities gen) of
             Some rt \<Rightarrow> (rt, g')
           | None \<Rightarrow>
               (case type_probabilities gen of
                  [] \<Rightarrow> (TRIP_SUMMARY_ANALYTICS, g')
                | _ \<Rightarrow> (fst (last (type_probabilities gen)), g'))))"

text \<open>\<open>_defaults_for_type\<close>: (processing_demand, data_size, latency_slo, is_emergency).\<close>

definition defaults_for_type :: "RequestType \<Rightarrow> real \<times> real \<times> real option \<times> bool" where
  "defaults_for_type rt =
     (if rt = EMERGENCY_SOS then (20, 2, Some 2, True)
      else if rt = COLLISION_ALERT then (15, 3 / 2, Some (1 / 2), True)
      else if rt = ROAD_HAZARD_BROADCAST then (12, 1, Some 1, True)
      else if rt = INCIDENT_UPLOAD then (18, 10, Some 5, True)
      else if rt \<in> {LANE_GUIDANCE, NAVIGATION_REROUTING, SPEED_LIMIT_AR, DROWSINESS_ALERT,
                     SURROUND_VIEW, SCHOOL_ZONE_ADVISORY, WEATHER_AWARE_ROUTING}
        then (10, 1, Some 3, False)
      else if rt \<in> {PARKING_DISCOVERY, EV_CHARGER_BOOKING, TOLLING_CHARGING}
        then (8, 1, Some 5, False)
      else if rt = TRIP_SUMMARY_ANALYTICS then (5, 3, Some 60, False)
      else (8, 1, None, False))"

definition priority_class_for_type :: "RequestType \<Rightarrow> int" where
  "priority_class_for_type rt =
     (if rt \<in> {EMERGENCY_SOS, COLLISION_ALERT, ROAD_HAZARD_BROADCAST, INCIDENT_UPLOAD} then 3
      else if rt \<in> {LANE_GUIDANCE, NAVIGATION_REROUTING, SPEED_LIMIT_AR, DROWSINESS_ALERT,
                     SURROUND_VIEW, SCHOOL_ZONE_ADVISORY, WEATHER_AWARE_ROUTING,
                     PARKING_DISCOVERY} then 2
      else 1)"

definition relative_deadline_for_type :: "RequestType \<Rightarrow> real" where
  "relative_deadline_for_type rt =
     (if rt = COLLISION_ALERT then 5
      else if rt \<in> {EMERGENCY_SOS, ROAD_HAZARD_BROADCAST} then 8
      else if rt = INCIDENT_UPLOAD then 10
      else if rt \<in> {LANE_GUIDANCE, DROWSINESS_ALERT, SURROUND_VIEW} then 15
      else if rt \<in> {NAVIGATION_REROUTING, SPEED_LIMIT_AR, SCHOOL_ZONE_ADVISORY,
                     WEATHER_AWARE_ROUTING} then 20
      else if rt = PARKING_DISCOVERY then 25
      else if rt \<in> {EV_CHARGER_BOOKING, TOLLING_CHARGING} then 60
      else if rt = TRIP_SUMMARY_ANALYTICS then 120
      else 60)"

text \<open>The Bernoulli trials \<open>for _ in range(max_n)\<close> that count the arrivals.\<close>

fun count_arrivals :: "nat \<Rightarrow> real \<Rightarrow> rng \<Rightarrow> nat \<times> rng" where
  "count_arrivals 0 p g = (0, g)"
| "count_arrivals (Suc k) p g =
     (case random_random g of
        (u, g') \<Rightarrow>
          (case count_arrivals k p g' of
             (num_new, g'') \<Rightarrow> ((if u < p then num_new + 1 else num_new), g'')))"

text \<open>The loop \<open>for _ in range(num_new)\<close> that builds the requests.\<close>

fun make_requests ::
  "SimulationConfig \<Rightarrow> real \<Rightarrow> nat \<Rightarrow> RequestGenerator \<Rightarrow> rng
     \<Rightarrow> Request list \<times> RequestGenerator \<times> rng" where
  "make_requests config current_time 0 gen g = ([], gen, g)"
| "make_requests config current_time (Suc k) gen g =
     (case sample_request_type gen g of
        (rt, g1) \<Rightarrow>
          (case defaults_for_type rt of
             (proc_cost, dsize, slo, emergency) \<Rightarrow>
               (case random_uniform 0 (cfg_city_width config) g1 of
                  (x, g2) \<Rightarrow>
                    (case random_uniform 0 (cfg_city_height config) g2 of
                       (y, g3) \<Rightarrow>
                         (let rel = relative_deadline_for_type rt;
                              req = \<lparr> request_id = next_request_id gen, request_type = rt,
                                      source_position = (x, y), arrival_time = current_time,
                                      processing_demand = proc_cost,
                                      remaining_demand = proc_cost, data_size = dsize,
                                      is_emergency = emergency, latency_slo = slo,
                                      priority_class = priority_class_for_type rt,
                                      relative_deadline_s = rel,
                                      absolute_deadline = current_time + rel,
                                      assigned_fog_id = None, start_time = None,
                                      completion_time = None \<rparr>
                          in case make_requests config current_time k
                                    (gen\<lparr>next_request_id := next_request_id gen + 1\<rparr>) g3 of
                               (reqs, gen', g') \<Rightarrow> (req # reqs, gen', g'))))))"

text \<open>
  \<open>generate_requests\<close>. A non-positive \<open>max_requests_per_step\<close> returns the empty list
  (lines 200-201).
\<close>

definition generate_requests ::
  "SimulationConfig \<Rightarrow> RequestGenerator \<Rightarrow> rng \<Rightarrow> real
     \<Rightarrow> Request list \<times> RequestGenerator \<times> rng" where
  "generate_requests config gen g current_time =
     (let avg = cfg_avg_requests_per_step config;
          max_n = cfg_max_requests_per_step config
      in if max_n \<le> 0 then ([], gen, g)
         else
           (let p = (if avg > 0 then min 1 (avg / real_of_int max_n) else 0) in
            case count_arrivals (nat max_n) p g of
              (num_new, g') \<Rightarrow> make_requests config current_time num_new gen g'))"

section \<open>Metrics collector (metrics.py)\<close>

text \<open>
  The counters of \<open>MetricsCollector\<close>, its per-step series and the latency samples. The
  per-type dictionaries, the waiting-time lists and the deadline tallies are written by
  the same methods, are read by no method before the final report, and are left out.
\<close>

record MetricsCollector =
  total_generated :: int
  total_completed :: int
  total_dropped :: int
  total_admitted :: int
  total_rejected :: int
  dropped_by_reason :: "string \<Rightarrow> int"
  latencies :: "real list"
  per_step_generated :: "int list"
  per_step_completed :: "int list"
  per_step_dropped :: "int list"
  current_step_dropped :: int
  avg_queue_lengths :: "real list"
  max_queue_lengths :: "int list"
  emergency_generated :: int
  emergency_completed :: int
  emergency_dropped :: int
  normal_generated :: int
  normal_completed :: int
  normal_dropped :: int

definition MetricsCollector_init :: MetricsCollector where
  "MetricsCollector_init =
     \<lparr> total_generated = 0, total_completed = 0, total_dropped = 0, total_admitted = 0,
       total_rejected = 0, dropped_by_reason = (\<lambda>_. 0), latencies = [],
       per_step_generated = [], per_step_completed = [], per_step_dropped = [],
       current_step_dropped = 0, avg_queue_lengths = [], max_queue_lengths = [],
       emergency_generated = 0, emergency_completed = 0, emergency_dropped = 0,
       normal_generated = 0, normal_completed = 0, normal_dropped = 0 \<rparr>"

definition record_generated :: "MetricsCollector \<Rightarrow> Request list \<Rightarrow> MetricsCollector" where
  "record_generated m requests =
     m\<lparr>total_generated := total_generated m + int (length requests),
       per_step_generated := per_step_generated m @ [int (length requests)],
       emergency_generated :=
         emergency_generated m + int (length (filter is_emergency requests)),
       normal_generated :=
         normal_generated m + int (length (filter (\<lambda>r. \<not> is_emergency r) requests))\<rparr>"

definition record_completed_one :: "MetricsCollector \<Rightarrow> Request \<Rightarrow> MetricsCollector" where
  "record_completed_one m r =
     (case latency r of
        None \<Rightarrow> m
      | Some lat \<Rightarrow>
          (if is_emergency r
           then m\<lparr>latencies := latencies m @ [lat],
                  emergency_completed := emergency_completed m + 1\<rparr>
           else m\<lparr>latencies := latencies m @ [lat],
                  normal_completed := normal_completed m + 1\<rparr>))"

definition record_completed :: "MetricsCollector \<Rightarrow> Request list \<Rightarrow> MetricsCollector" where
  "record_completed m requests =
     foldl record_completed_one
       (m\<lparr>total_completed := total_completed m + int (length requests),
          per_step_completed := per_step_completed m @ [int (length requests)]\<rparr>)
       requests"

definition record_dropped :: "MetricsCollector \<Rightarrow> Request \<Rightarrow> string \<Rightarrow> MetricsCollector" where
  "record_dropped m request reason =
     (let m1 = m\<lparr>total_dropped := total_dropped m + 1,
                 dropped_by_reason := (dropped_by_reason m)(reason := dropped_by_reason m reason + 1),
                 current_step_dropped := current_step_dropped m + 1\<rparr>
      in if is_emergency request then m1\<lparr>emergency_dropped := emergency_dropped m1 + 1\<rparr>
         else m1\<lparr>normal_dropped := normal_dropped m1 + 1\<rparr>)"

definition record_rejected :: "MetricsCollector \<Rightarrow> Request \<Rightarrow> string \<Rightarrow> MetricsCollector" where
  "record_rejected m request reason =
     (let m1 = m\<lparr>total_rejected := total_rejected m + 1,
                 dropped_by_reason := (dropped_by_reason m)(reason := dropped_by_reason m reason + 1)\<rparr>
      in if is_emergency request then m1\<lparr>emergency_dropped := emergency_dropped m1 + 1\<rparr>
         else m1\<lparr>normal_dropped := normal_dropped m1 + 1\<rparr>)"

definition record_queue_lengths :: "MetricsCollector \<Rightarrow> FogNode list \<Rightarrow> MetricsCollector" where
  "record_queue_lengths m fog_nodes =
     (case map queue_length fog_nodes of
        [] \<Rightarrow> m
      | l # ls \<Rightarrow>
          m\<lparr>avg_queue_lengths :=
              avg_queue_lengths m
                @ [real_of_int (sum_list (l # ls)) / real (length (l # ls))],
            max_queue_lengths := max_queue_lengths m @ [fold max ls l]\<rparr>)"

definition step_advance :: "MetricsCollector \<Rightarrow> MetricsCollector" where
  "step_advance m =
     m\<lparr>per_step_dropped := per_step_dropped m @ [current_step_dropped m],
       current_step_dropped := 0\<rparr>"

section \<open>Simulation engine (simulation.py)\<close>

text \<open>
  The state of a run: the objects a \<open>Simulation\<close> holds, the random state, and the local
  variable \<open>time\<close> of \<open>run\<close> (field \<open>clock\<close>).
\<close>

record Simulation =
  config :: SimulationConfig
  topology :: "FogNode list"
  generator :: RequestGenerator
  metrics :: MetricsCollector
  random_state :: rng
  clock :: real

text \<open>
  \<open>Simulation.__init__\<close> followed by \<open>time = 0.0\<close>. \<open>random.seed\<close> fixes the random state;
  the seeded state is the parameter \<open>g\<close>.
\<close>

definition Simulation_init :: "SimulationConfig \<Rightarrow> rng \<Rightarrow> py_error + Simulation" where
  "Simulation_init cfg g =
     (case build_grid_topology cfg of
        Inl e \<Rightarrow> Inl e
      | Inr nodes \<Rightarrow>
          (case RequestGenerator_init cfg of
             Inl e \<Rightarrow> Inl e
           | Inr gen \<Rightarrow>
               Inr \<lparr> config = cfg, topology = nodes, generator = gen,
                     metrics = MetricsCollector_init, random_state = g, clock = 0 \<rparr>))"

definition step_length :: "SimulationConfig \<Rightarrow> real" where
  "step_length cfg =
     (case cfg_time_step_ms cfg of
        Some ms \<Rightarrow> real_of_int ms / 1000
      | None \<Rightarrow> cfg_time_step cfg)"

text \<open>The body of the loop \<open>for req in new_requests\<close> (lines 62-88).\<close>

definition route_request ::
  "real \<Rightarrow> Request \<Rightarrow> FogNode list \<times> MetricsCollector
     \<Rightarrow> py_error + (FogNode list \<times> MetricsCollector)" where
  "route_request dt req st =
     (case st of
        (nodes, m) \<Rightarrow>
          (case get_nearest_fog nodes (source_position req) of
             Inl e \<Rightarrow> Inl e
           | Inr i \<Rightarrow>
               (let fog_node = nodes ! i;
                    req = req\<lparr>assigned_fog_id := Some (node_id fog_node)\<rparr>
                in if can_accept_request fog_node req dt then
                     (case enqueue_request fog_node req dt of
                        Inl e \<Rightarrow> Inl e
                      | Inr (fog_node', success, reason) \<Rightarrow>
                          if success then
                            Inr (nodes[i := fog_node'],
                                 m\<lparr>total_admitted := total_admitted m + 1\<rparr>)
                          else if reason = Some ''admission_rejected'' then
                            Inr (nodes[i := fog_node'],
                                 record_rejected m req ''admission_rejected'')
                          else
                            Inr (nodes[i := fog_node'], record_dropped m req ''queue_full''))
                   else Inr (nodes, record_dropped m req ''link_capacity''))))"

fun route_requests ::
  "real \<Rightarrow> Request list \<Rightarrow> FogNode list \<times> MetricsCollector
     \<Rightarrow> py_error + (FogNode list \<times> MetricsCollector)" where
  "route_requests dt [] st = Inr st"
| "route_requests dt (req # rest) st =
     (case route_request dt req st of
        Inl e \<Rightarrow> Inl e
      | Inr st' \<Rightarrow> route_requests dt rest st')"

text \<open>The loop \<open>for node in self.topology.all_nodes()\<close> of step 4 (lines 91-94).\<close>

fun process_all_nodes ::
  "real \<Rightarrow> real \<Rightarrow> FogNode list \<Rightarrow> py_error + (FogNode list \<times> Request list)" where
  "process_all_nodes current_time dt [] = Inr ([], [])"
| "process_all_nodes current_time dt (node # rest) =
     (case process_one_step node current_time dt of
        Inl e \<Rightarrow> Inl e
      | Inr (node', completed) \<Rightarrow>
          (case process_all_nodes current_time dt rest of
             Inl e \<Rightarrow> Inl e
           | Inr (rest', all_completed) \<Rightarrow> Inr (node' # rest', completed @ all_completed)))"

text \<open>One iteration of the loop of \<open>run\<close> (lines 53-105).\<close>

definition sim_step :: "Simulation \<Rightarrow> py_error + Simulation" where
  "sim_step s =
     (let dt = step_length (config s);
          nodes = map reset_step_state (topology s)
      in case generate_requests (config s) (generator s) (random_state s) (clock s) of
           (new_requests, gen', g') \<Rightarrow>
             (case route_requests dt new_requests
                     (nodes, record_generated (metrics s) new_requests) of
                Inl e \<Rightarrow> Inl e
              | Inr (nodes1, m1) \<Rightarrow>
                  (case process_all_nodes (clock s) dt nodes1 of
                     Inl e \<Rightarrow> Inl e
                   | Inr (nodes2, all_completed) \<Rightarrow>
                       Inr (s\<lparr>topology := nodes2, generator := gen',
                              metrics :=
                                step_advance
                                  (record_queue_lengths (record_completed m1 all_completed)
                                     nodes2),
                              random_state := g',
                              clock := clock s + dt\<rparr>))))"

text \<open>
  The loop \<open>while time < self.config.sim_time\<close>, cut after at most \<open>k\<close> iterations: the
  result is the state at the step boundary reached, or the exception raised on the way.
\<close>

fun run_steps :: "nat \<Rightarrow> Simulation \<Rightarrow> py_error + Simulation" where
  "run_steps 0 s = Inr s"
| "run_steps (Suc k) s =
     (if clock s < cfg_sim_time (config s) then
        (case sim_step s of Inl e \<Rightarrow> Inl e | Inr s' \<Rightarrow> run_steps k s')
      else Inr s)"

text \<open>
  The quantities of the specification's admission rule: \<open>W_n\<close> is the sum of the remaining
  demand over the three class queues and the in-service request, \<open>t_finish\<close> the predicted
  finish time.
\<close>

definition W_n :: "FogNode \<Rightarrow> real" where
  "W_n n =
     sum_list (map remaining_demand (dynamic_queue_3 n))
       + sum_list (map remaining_demand (dynamic_queue_2 n))
       + sum_list (map remaining_demand (dynamic_queue_1 n))
       + (case current_request n of None \<Rightarrow> 0 | Some c \<Rightarrow> remaining_demand c)"

definition t_finish :: "FogNode \<Rightarrow> Request \<Rightarrow> real" where
  "t_finish n request =
     arrival_time request + (W_n n + processing_demand request) / cpu_capacity n"

definition queue_is_full :: "FogNode \<Rightarrow> bool" where
  "queue_is_full n =
     (case max_queue_length n of None \<Rightarrow> False | Some m \<Rightarrow> get_total_queue_length n \<ge> m)"

section \<open>Relating a node before and after a step\<close>

text \<open>The requests a node holds under its policy: its queues and the in-service slot.\<close>

definition held :: "FogNode \<Rightarrow> Request list" where
  "held n =
     (if is_sla (scheduler n) then
        dynamic_queue_3 n @ dynamic_queue_2 n @ dynamic_queue_1 n
          @ (case current_request n of None \<Rightarrow> [] | Some c \<Rightarrow> [c])
      else if scheduler n = ''STATIC_PRIORITY'' then
        priority_queue_3 n @ priority_queue_2 n @ priority_queue_1 n
      else if scheduler n = ''EMERGENCY_FIRST'' then emergency_queue n @ normal_queue n
      else queue n)"

text \<open>
  \<open>same_identity r r'\<close>: \<open>r'\<close> is \<open>r\<close> up to the three fields that processing writes.
  \<open>start_kept t r r'\<close>: a start time that was set is kept; one that was not set is still
  unset or has become \<open>t\<close>.
\<close>

definition runtime_cleared :: "Request \<Rightarrow> Request" where
  "runtime_cleared r = r\<lparr>remaining_demand := 0, start_time := None, completion_time := None\<rparr>"

definition same_identity :: "Request \<Rightarrow> Request \<Rightarrow> bool" where
  "same_identity r r' = (runtime_cleared r' = runtime_cleared r)"

definition start_kept :: "real \<Rightarrow> Request \<Rightarrow> Request \<Rightarrow> bool" where
  "start_kept t r r' =
     (case start_time r of
        Some s \<Rightarrow> start_time r' = Some s
      | None \<Rightarrow> start_time r' = None \<or> start_time r' = Some t)"

text \<open>
  \<open>finished t dt r r'\<close>: the step at time \<open>t\<close> of length \<open>dt\<close> finished \<open>r\<close>, leaving \<open>r'\<close>.
  \<open>progressed t r r'\<close>: the step gave \<open>r\<close> capacity without finishing it.
  \<open>stays t r r'\<close>: \<open>r\<close> is still held after the step, as \<open>r'\<close>; when it got no capacity its
  remaining demand is unchanged.
  \<open>completes\<close> and \<open>partly_served\<close> add that the start time of the served request is set;
  \<open>waits_or_served t r r'\<close>: \<open>r\<close> is still held and either is unchanged altogether or was
  partly served.
\<close>

definition finished :: "real \<Rightarrow> real \<Rightarrow> Request \<Rightarrow> Request \<Rightarrow> bool" where
  "finished t dt r r' =
     (same_identity r r' \<and> start_kept t r r'
      \<and> remaining_demand r' = 0 \<and> completion_time r' = Some (t + dt))"

definition progressed :: "real \<Rightarrow> Request \<Rightarrow> Request \<Rightarrow> bool" where
  "progressed t r r' =
     (same_identity r r' \<and> start_kept t r r' \<and> completion_time r' = completion_time r
      \<and> 0 < remaining_demand r' \<and> remaining_demand r' < remaining_demand r)"

definition stays :: "real \<Rightarrow> Request \<Rightarrow> Request \<Rightarrow> bool" where
  "stays t r r' =
     ((same_identity r r' \<and> start_kept t r r' \<and> completion_time r' = completion_time r
         \<and> remaining_demand r' = remaining_demand r)
      \<or> progressed t r r')"

definition completes :: "real \<Rightarrow> real \<Rightarrow> Request \<Rightarrow> Request \<Rightarrow> bool" where
  "completes t dt r r' = (finished t dt r r' \<and> start_time r' \<noteq> None)"

definition partly_served :: "real \<Rightarrow> Request \<Rightarrow> Request \<Rightarrow> bool" where
  "partly_served t r r' = (progressed t r r' \<and> start_time r' \<noteq> None)"

definition waits_or_served :: "real \<Rightarrow> Request \<Rightarrow> Request \<Rightarrow> bool" where
  "waits_or_served t r r' = (r' = r \<or> partly_served t r r')"

text \<open>
  \<open>step_relates t dt before completed after\<close>: a step turned the held requests \<open>before\<close>
  into the completed requests \<open>completed\<close> and the held requests \<open>after\<close>: every completed
  request is a held request finished, every request held afterwards is a held request
  that stayed, every held request is accounted for, and the number of requests is the
  same.
\<close>

definition step_relates ::
  "real \<Rightarrow> real \<Rightarrow> Request list \<Rightarrow> Request list \<Rightarrow> Request list \<Rightarrow> bool" where
  "step_relates t dt before completed after =
     ((\<forall>r' \<in> set completed. \<exists>r \<in> set before. finished t dt r r')
      \<and> (\<forall>r' \<in> set after. \<exists>r \<in> set before. stays t r r')
      \<and> (\<forall>r \<in> set before.
            (\<exists>r' \<in> set completed. finished t dt r r') \<or> (\<exists>r' \<in> set after. stays t r r'))
      \<and> length after + length completed = length before)"

definition dynamic_held :: "FogNode \<Rightarrow> Request list" where
  "dynamic_held n =
     dynamic_queue_3 n @ dynamic_queue_2 n @ dynamic_queue_1 n
       @ (case current_request n of None \<Rightarrow> [] | Some c \<Rightarrow> [c])"

definition total_remaining :: "Request list \<Rightarrow> real" where
  "total_remaining rs = sum_list (map remaining_demand rs)"

section \<open>The outcome of a step in closed form\<close>

text \<open>
  \<open>started t r\<close> is \<open>r\<close> with its start time recorded if it had none; \<open>finish_request\<close>
  marks a request completed by the step at time \<open>t\<close> of length \<open>dt\<close>; \<open>reduce_request b r\<close>
  takes \<open>b\<close> units off the remaining demand. \<open>budget_left cap q i\<close> is the budget that is
  left of \<open>cap\<close> when the request at position \<open>i\<close> of \<open>q\<close> is reached, the requests before
  it having been completed.
\<close>

definition started :: "real \<Rightarrow> Request \<Rightarrow> Request" where
  "started t r = (if start_time r = None then r\<lparr>start_time := Some t\<rparr> else r)"

definition finish_request :: "real \<Rightarrow> real \<Rightarrow> Request \<Rightarrow> Request" where
  "finish_request t dt r = r\<lparr>remaining_demand := 0, completion_time := Some (t + dt)\<rparr>"

definition reduce_request :: "real \<Rightarrow> Request \<Rightarrow> Request" where
  "reduce_request b r = r\<lparr>remaining_demand := remaining_demand r - b\<rparr>"

definition budget_left :: "real \<Rightarrow> Request list \<Rightarrow> nat \<Rightarrow> real" where
  "budget_left cap q i = cap - total_remaining (take i q)"

text \<open>
  \<open>queue_served t dt cap q q' c cap'\<close>: serving the queue \<open>q\<close> from its head with the budget
  \<open>cap\<close> gives the completed requests \<open>c\<close>, the queue \<open>q'\<close> and the budget \<open>cap'\<close>. The
  completed requests are the first \<open>k\<close> requests of \<open>q\<close>, in order, each started and
  finished, and each of them was reached with a positive budget that covered its
  remaining demand. If the queue is not exhausted, the request at position \<open>k\<close> was
  reached with no budget left, and it and all requests behind it are untouched; or it was
  reached with a positive budget smaller than its remaining demand, and it stays at the
  head, started and with its remaining demand reduced by exactly that budget, all
  requests behind it untouched and no budget left.
\<close>

definition queue_served ::
  "real \<Rightarrow> real \<Rightarrow> real \<Rightarrow> Request list \<Rightarrow> Request list \<Rightarrow> Request list \<Rightarrow> real \<Rightarrow> bool" where
  "queue_served t dt cap q q' c cap' =
     (let k = length c in
      k \<le> length q
      \<and> c = map (\<lambda>r. finish_request t dt (started t r)) (take k q)
      \<and> (\<forall>i < k. 0 < budget_left cap q i \<and> remaining_demand (q ! i) \<le> budget_left cap q i)
      \<and> (if k = length q then q' = [] \<and> cap' = budget_left cap q k
          else if budget_left cap q k \<le> 0 then q' = drop k q \<and> cap' = budget_left cap q k
          else budget_left cap q k < remaining_demand (q ! k)
               \<and> q' = reduce_request (budget_left cap q k) (started t (q ! k)) # drop (Suc k) q
               \<and> cap' = 0))"

text \<open>
  The SLA branch serves a line of requests: the request in service, if there is one, and
  then the queued requests in the order in which the dispatcher takes them.
  \<open>dispatch_order n t\<close> is that order: the request \<open>_select_next_request_sla\<close> selects
  at time \<open>t\<close>, then the one it selects once the first has been removed from its class
  queue, and so on until no request is queued; \<open>dispatched j n t\<close> is the node after the
  first \<open>j\<close> of them have been removed. A dispatched request has its start time recorded.
  \<open>dispatch_view\<close> is what the dispatcher reads of a node.
\<close>

function dispatch_order :: "FogNode \<Rightarrow> real \<Rightarrow> Request list" where
  "dispatch_order n t =
     (case select_next_request_sla n t of
        None \<Rightarrow> []
      | Some r \<Rightarrow>
          (case dynamic_remove r n of
             Inl e \<Rightarrow> []
           | Inr n2 \<Rightarrow> r # dispatch_order n2 t))"
  by pat_completeness auto
termination
proof (relation "measure (\<lambda>(n, t). dynamic_total n)", goal_cases)
  case 1
  show ?case by simp
next
  case 2
  have rm: "\<And>x q q'. deque_remove x q = Inr q' \<Longrightarrow> Suc (length q') = length q"
    by (auto simp add: deque_remove_def length_remove1 split: if_splits)
      (metis length_pos_if_in_set Suc_pred)
  have remove: "\<And>r n n'. dynamic_remove r n = Inr n' \<Longrightarrow> dynamic_total n' < dynamic_total n"
    by (auto simp add: dynamic_remove_def dynamic_total_def split: if_splits sum.splits
          dest!: rm)
  from 2 show ?case
    by (auto dest!: remove)
qed

declare dispatch_order.simps [simp del]

fun dispatched :: "nat \<Rightarrow> FogNode \<Rightarrow> real \<Rightarrow> FogNode" where
  "dispatched 0 n t = n"
| "dispatched (Suc j) n t =
     (case select_next_request_sla n t of
        None \<Rightarrow> n
      | Some r \<Rightarrow>
          (case dynamic_remove r n of
             Inl e \<Rightarrow> n
           | Inr n2 \<Rightarrow> dispatched j n2 t))"

definition dispatch_view ::
  "FogNode \<Rightarrow> Request list \<times> Request list \<times> Request list \<times> real \<times> real \<times> real" where
  "dispatch_view n =
     (dynamic_queue_3 n, dynamic_queue_2 n, dynamic_queue_1 n, alpha n, beta n, gamma n)"

definition in_service :: "FogNode \<Rightarrow> Request list" where
  "in_service n = (case current_request n of None \<Rightarrow> [] | Some c \<Rightarrow> [c])"

definition service_line :: "FogNode \<Rightarrow> real \<Rightarrow> Request list" where
  "service_line n t = in_service n @ map (started t) (dispatch_order n t)"

text \<open>
  \<open>line_outcome t dt cap line c cur'\<close>: serving the line with the budget \<open>cap\<close> completes
  the requests \<open>c\<close> and leaves \<open>cur'\<close> in service. The completed requests are the first \<open>k\<close>
  of the line, in order, each finished, and each of them was reached with a positive
  budget that covered its remaining demand. If the line is exhausted, no request is in
  service. Otherwise the request at position \<open>k\<close> is in service: it was reached with a
  positive budget smaller than its remaining demand, which is reduced by exactly that
  budget; or the requests before it used the budget exactly, and it is in service with its
  remaining demand as it was.
\<close>

definition line_outcome ::
  "real \<Rightarrow> real \<Rightarrow> real \<Rightarrow> Request list \<Rightarrow> Request list \<Rightarrow> Request option \<Rightarrow> bool" where
  "line_outcome t dt cap line c cur' =
     (let k = length c in
      k \<le> length line
      \<and> c = map (finish_request t dt) (take k line)
      \<and> (\<forall>i < k. 0 < budget_left cap line i
                  \<and> remaining_demand (line ! i) \<le> budget_left cap line i)
      \<and> (if k = length line then cur' = None
          else (budget_left cap line k = 0
                \<or> 0 < budget_left cap line k
                   \<and> budget_left cap line k < remaining_demand (line ! k))
               \<and> cur' = Some (reduce_request (budget_left cap line k) (line ! k))))"

text \<open>
  \<open>line_served t dt cap n n' c\<close>: the SLA loop with the positive budget \<open>cap\<close> turned the
  node \<open>n\<close> into \<open>n'\<close> and completed \<open>c\<close>: the service line of \<open>n\<close> has the outcome above,
  and the class queues of \<open>n'\<close> are those of \<open>n\<close> without the dispatched requests, which
  are the requests of the line up to the one left in service.
\<close>

definition line_served :: "real \<Rightarrow> real \<Rightarrow> real \<Rightarrow> FogNode \<Rightarrow> FogNode \<Rightarrow> Request list \<Rightarrow> bool" where
  "line_served t dt cap n n' c =
     (line_outcome t dt cap (service_line n t) c (current_request n')
      \<and> dynamic_queue_3 n'
          = dynamic_queue_3 (dispatched (Suc (length c) - length (in_service n)) n t)
      \<and> dynamic_queue_2 n'
          = dynamic_queue_2 (dispatched (Suc (length c) - length (in_service n)) n t)
      \<and> dynamic_queue_1 n'
          = dynamic_queue_1 (dispatched (Suc (length c) - length (in_service n)) n t)
      \<and> completed_history n' = completed_history n @ c)"

text \<open>
  \<open>in_system nodes\<close> is the number of requests the nodes hold. \<open>counters_ok m nodes\<close>: every
  generated request has been classified once, as admitted, rejected or dropped, and every
  admitted request has completed or is held by a node.
\<close>

definition in_system :: "FogNode list \<Rightarrow> nat" where
  "in_system nodes = sum_list (map (\<lambda>n. length (held n)) nodes)"

definition counters_ok :: "MetricsCollector \<Rightarrow> FogNode list \<Rightarrow> bool" where
  "counters_ok m nodes =
     (total_generated m = total_admitted m + total_rejected m + total_dropped m
      \<and> total_admitted m = total_completed m + int (in_system nodes))"

section \<open>Example inputs\<close>

text \<open>
  Concrete requests and nodes on which the theorems below are exercised. \<open>ex_request\<close> is
  the request the generator builds for an \<open>EMERGENCY_SOS\<close> arrival at time 0.
\<close>

definition ex_request :: "int \<Rightarrow> real \<Rightarrow> Request" where
  "ex_request i demand =
     \<lparr> request_id = i, request_type = EMERGENCY_SOS, source_position = (0, 0),
       arrival_time = 0, processing_demand = demand, remaining_demand = demand,
       data_size = 2, is_emergency = True, latency_slo = Some 2, priority_class = 3,
       relative_deadline_s = 8, absolute_deadline = 8, assigned_fog_id = None,
       start_time = None, completion_time = None \<rparr>"

definition ex_node :: "string \<Rightarrow> int option \<Rightarrow> FogNode" where
  "ex_node sched maxq = FogNode_init 0 (0, 0) 10 (Some 50) maxq sched"

text \<open>An SLA node of queue bound 1 that already holds one request of demand 20.\<close>

definition ex_full_sla_node :: FogNode where
  "ex_full_sla_node = (ex_node ''SLA-DWP-Fog'' (Some 1))\<lparr>dynamic_queue_3 := [ex_request 0 20]\<rparr>"

text \<open>
  The invariant of the adaptive weights: non-negative dual variables, weights in \<open>[0, 1]\<close>
  that sum to one.
\<close>

definition sla_weights_ok :: "FogNode \<Rightarrow> bool" where
  "sla_weights_ok n =
     (0 \<le> lambda_1 n \<and> 0 \<le> lambda_2 n \<and> 0 \<le> lambda_3 n
      \<and> alpha n + beta n + gamma n = 1
      \<and> 0 \<le> alpha n \<and> alpha n \<le> 1 \<and> 0 \<le> beta n \<and> beta n \<le> 1
      \<and> 0 \<le> gamma n \<and> gamma n \<le> 1)"

text \<open>Two applications of the window update at the same time.\<close>

definition update_twice :: "FogNode \<Rightarrow> real \<Rightarrow> py_error + FogNode" where
  "update_twice n current_time =
     (case update_sla_weights_window n current_time of
        Inl e \<Rightarrow> Inl e
      | Inr n1 \<Rightarrow> update_sla_weights_window n1 current_time)"

text \<open>
  An SLA node whose completion history holds one class-3 request that arrived at 0 with
  deadline 8 and completed at 9.
\<close>

definition ex_history_node :: FogNode where
  "ex_history_node =
     (ex_node ''SLA-DWP-Fog'' None)
       \<lparr>completed_history :=
          [(ex_request 0 20)\<lparr>remaining_demand := 0, start_time := Some 0,
                             completion_time := Some 9\<rparr>]\<rparr>"

text \<open>A request of data size 30.\<close>

definition ex_big_request :: "int \<Rightarrow> Request" where
  "ex_big_request i = (ex_request i 20)\<lparr>data_size := 30\<rparr>"

text \<open>A random source, and the default configuration with arrival bound 0.\<close>

definition ex_rng :: rng where
  "ex_rng = (\<lambda>k. 1 / 2)"

definition ex_config_no_arrivals :: SimulationConfig where
  "ex_config_no_arrivals = default_config\<lparr>cfg_max_requests_per_step := 0\<rparr>"

text \<open>\<open>Simulation(config).run()\<close>, cut after at most \<open>k\<close> iterations of its loop.\<close>

definition run_from :: "SimulationConfig \<Rightarrow> rng \<Rightarrow> nat \<Rightarrow> py_error + Simulation" where
  "run_from cfg g k =
     (case Simulation_init cfg g of Inl e \<Rightarrow> Inl e | Inr s \<Rightarrow> run_steps k s)"

text \<open>
  A class-1 request, and nodes that hold a class-3 request of demand 20 together with a
  class-1 request of demand 4.
\<close>

definition ex_low_request :: "int \<Rightarrow> real \<Rightarrow> Request" where
  "ex_low_request i demand =
     \<lparr> request_id = i, request_type = TOLLING_CHARGING, source_position = (0, 0),
       arrival_time = 0, processing_demand = demand, remaining_demand = demand,
       data_size = 1, is_emergency = False, latency_slo = Some 5, priority_class = 1,
       relative_deadline_s = 60, absolute_deadline = 60, assigned_fog_id = None,
       start_time = None, completion_time = None \<rparr>"

definition ex_static_node :: FogNode where
  "ex_static_node =
     (ex_node ''STATIC_PRIORITY'' None)
       \<lparr>priority_queue_3 := [ex_request 0 20], priority_queue_1 := [ex_low_request 1 4]\<rparr>"

definition ex_emergency_node :: FogNode where
  "ex_emergency_node =
     (ex_node ''EMERGENCY_FIRST'' None)
       \<lparr>emergency_queue := [ex_request 0 20], normal_queue := [ex_low_request 1 4]\<rparr>"

text \<open>
  \<open>k\<close> successive steps of a node, at the times \<open>t\<close>, \<open>t + dt\<close>, ..., with the requests
  completed on the way.
\<close>

fun run_node :: "nat \<Rightarrow> real \<Rightarrow> real \<Rightarrow> FogNode \<Rightarrow> py_error + (FogNode \<times> Request list)" where
  "run_node 0 t dt n = Inr (n, [])"
| "run_node (Suc k) t dt n =
     (case process_one_step n t dt of
        Inl e \<Rightarrow> Inl e
      | Inr (n1, c1) \<Rightarrow>
          (case run_node k (t + dt) dt n1 of
             Inl e \<Rightarrow> Inl e
           | Inr (n2, c2) \<Rightarrow> Inr (n2, c1 @ c2)))"

text \<open>
  The scenario of a single node of CPU capacity 1 and step length 1 that is offered one
  request of demand 2.5 at time 0 and then runs \<open>k\<close> steps.
\<close>

definition ex_scenario_request :: Request where
  "ex_scenario_request = ex_request 7 (5 / 2)"

definition ex_scenario_node :: "string \<Rightarrow> FogNode" where
  "ex_scenario_node sched = FogNode_init 0 (0, 0) 1 (Some 50) None sched"

definition scenario :: "string \<Rightarrow> nat \<Rightarrow> py_error + (FogNode \<times> Request list)" where
  "scenario sched k =
     (case enqueue_request (ex_scenario_node sched) ex_scenario_request 1 of
        Inl e \<Rightarrow> Inl e
      | Inr (n, success, reason) \<Rightarrow> run_node k 0 1 n)"

text \<open>The FIFO node of the scenario after the admission, and after its first step.\<close>

definition ex_scenario_admitted :: FogNode where
  "ex_scenario_admitted =
     (ex_scenario_node ''FIFO'')\<lparr>queue := [ex_scenario_request], current_link_load := 2\<rparr>"

definition ex_scenario_after_step :: FogNode where
  "ex_scenario_after_step =
     ex_scenario_admitted
       \<lparr>queue := [ex_scenario_request\<lparr>remaining_demand := 3 / 2, start_time := Some 0\<rparr>]\<rparr>"

text \<open>
  An SLA node of capacity 10 that holds two class-3 requests of demand 10, and the same
  node after a step of length 1 at time 0.
\<close>

definition ex_sla_two :: FogNode where
  "ex_sla_two =
     (ex_node ''SLA-DWP-Fog'' None)\<lparr>dynamic_queue_3 := [ex_request 0 10, ex_request 1 10]\<rparr>"

definition ex_sla_two_after :: FogNode where
  "ex_sla_two_after =
     ex_sla_two
       \<lparr>dynamic_queue_3 := [],
        completed_history :=
          [(ex_request 0 10)\<lparr>remaining_demand := 0, start_time := Some 0,
                              completion_time := Some 1\<rparr>],
        current_request := Some ((ex_request 1 10)\<lparr>start_time := Some 0\<rparr>),
        current_request_start_time := Some 0\<rparr>"

text \<open>The FIFO node of capacity 10 that holds the same two requests.\<close>

definition ex_fifo_two :: FogNode where
  "ex_fifo_two = (ex_node ''FIFO'' None)\<lparr>queue := [ex_request 0 10, ex_request 1 10]\<rparr>"

text \<open>
  The default configuration with one FIFO node and exactly one arrival in every step
  (arrival probability \<open>min(1, 1/1) = 1\<close>).
\<close>

definition ex_config_arrivals :: SimulationConfig where
  "ex_config_arrivals =
     default_config\<lparr>cfg_num_fog_nodes_x := 1, cfg_num_fog_nodes_y := 1,
                    cfg_avg_requests_per_step := 1, cfg_max_requests_per_step := 1\<rparr>"

section \<open>Admission control\<close>

lemmas ex_simps = ex_request_def ex_node_def ex_full_sla_node_def FogNode_init_def
  get_total_queue_length_def is_sla_def queue_is_full_def t_finish_def W_n_def

lemma foldl_add_sum_list:
  "foldl (\<lambda>acc req. acc + f req) (a::real) xs = a + sum_list (map f xs)"
  by (induction xs arbitrary: a) simp_all

lemma admission_check_eq:
  "cpu_capacity n \<noteq> 0 \<Longrightarrow>
   admission_control_check_timebased n r = Inr (t_finish n r \<le> absolute_deadline r)"
  by (simp add: admission_control_check_timebased_def t_finish_def W_n_def Let_def
        foldl_add_sum_list add.assoc split: option.splits)

lemma enqueue_full:
  "queue_is_full n \<Longrightarrow> enqueue_request n r dt = Inr (n, False, Some ''queue_full'')"
  by (simp add: enqueue_request_def queue_is_full_def Let_def)

lemma enqueue_sla_reject:
  assumes "is_sla (scheduler n)" "\<not> queue_is_full n" "cpu_capacity n \<noteq> 0"
    and "\<not> t_finish n r \<le> absolute_deadline r"
  shows "enqueue_request n r dt =
           Inr (n\<lparr>total_rejected_due_to_deadline := total_rejected_due_to_deadline n + 1\<rparr>,
                False, Some ''admission_rejected'')"
  using assms
  by (simp add: enqueue_request_def queue_is_full_def Let_def admission_check_eq)

lemma enqueue_sla_admit:
  assumes "is_sla (scheduler n)" "\<not> queue_is_full n" "cpu_capacity n \<noteq> 0"
    and "t_finish n r \<le> absolute_deadline r"
  shows "\<exists>n'. enqueue_request n r dt = Inr (n', True, None)"
  using assms
  by (simp add: enqueue_request_def queue_is_full_def Let_def admission_check_eq
        split: option.splits)

text \<open>
  Claim C1. On a node running the SLA-adaptive policy (with a non-zero CPU capacity, so
  that the predicted finish time is defined), the admission test returns exactly
  \<open>t_finish \<le> absolute_deadline\<close>, where \<open>t_finish = arrival_time + (W_n +
  processing_demand) / cpu_capacity\<close> and \<open>W_n\<close> is the remaining demand of the three class
  queues plus the in-service request. \<open>enqueue_request\<close> admits the request exactly when the
  queue is not full and the test passes; so every admitted request had a predicted finish
  time within its deadline, and a request whose predicted finish time exceeds its deadline
  is refused.
\<close>

theorem sla_admission_sound:
  assumes "is_sla (scheduler n)" and "cpu_capacity n \<noteq> 0"
  shows "admission_control_check_timebased n r = Inr (t_finish n r \<le> absolute_deadline r)
    \<and> ((\<exists>n'. enqueue_request n r dt = Inr (n', True, None))
           \<longleftrightarrow> (\<not> queue_is_full n \<and> t_finish n r \<le> absolute_deadline r))
    \<and> (absolute_deadline r < t_finish n r \<longrightarrow>
           (\<exists>n' reason. enqueue_request n r dt = Inr (n', False, Some reason)))"
proof (intro conjI impI)
  show "admission_control_check_timebased n r = Inr (t_finish n r \<le> absolute_deadline r)"
    using assms by (simp add: admission_check_eq)
next
  show "(\<exists>n'. enqueue_request n r dt = Inr (n', True, None))
           \<longleftrightarrow> (\<not> queue_is_full n \<and> t_finish n r \<le> absolute_deadline r)"
  proof (cases "queue_is_full n")
    case True
    then show ?thesis by (simp add: enqueue_full)
  next
    case nf: False
    show ?thesis
    proof (cases "t_finish n r \<le> absolute_deadline r")
      case True
      with nf enqueue_sla_admit [OF assms(1) nf assms(2) True] show ?thesis by simp
    next
      case False
      with nf enqueue_sla_reject [OF assms(1) nf assms(2) False] show ?thesis by simp
    qed
  qed
next
  assume late: "absolute_deadline r < t_finish n r"
  show "\<exists>n' reason. enqueue_request n r dt = Inr (n', False, Some reason)"
  proof (cases "queue_is_full n")
    case True
    then show ?thesis by (simp add: enqueue_full)
  next
    case False
    from late have "\<not> t_finish n r \<le> absolute_deadline r" by simp
    from enqueue_sla_reject [OF assms(1) False assms(2) this] show ?thesis by simp
  qed
qed

text \<open>
  The theorem at an empty SLA node of capacity 10: a request of demand 20 (predicted
  finish 2, deadline 8) is admitted, a request of demand 100 (predicted finish 10) is
  refused.
\<close>

theorem sla_admission_sound_witness:
  "t_finish (ex_node ''SLA-DWP-Fog'' None) (ex_request 1 20) = 2
   \<and> (\<exists>n'. enqueue_request (ex_node ''SLA-DWP-Fog'' None) (ex_request 1 20) 1 = Inr (n', True, None))
   \<and> t_finish (ex_node ''SLA-DWP-Fog'' None) (ex_request 1 100) = 10
   \<and> (\<exists>n' reason. enqueue_request (ex_node ''SLA-DWP-Fog'' None) (ex_request 1 100) 1
          = Inr (n', False, Some reason))"
  using sla_admission_sound [of "ex_node ''SLA-DWP-Fog'' None" "ex_request 1 20" 1]
    sla_admission_sound [of "ex_node ''SLA-DWP-Fog'' None" "ex_request 1 100" 1]
  by (simp add: ex_simps)

text \<open>
  Claim C2 states that a full SLA node answers a request whose predicted finish time
  exceeds its deadline with \<open>admission_rejected\<close>. The node below is full (bound 1, one
  queued request of demand 20); the offered request has predicted finish time 12 against
  the deadline 8, and the answer is \<open>queue_full\<close>: the queue-length test of lines 128-131
  runs first, for every policy.
\<close>

theorem sla_full_queue_counterexample:
  "is_sla (scheduler ex_full_sla_node) \<and> queue_is_full ex_full_sla_node
   \<and> t_finish ex_full_sla_node (ex_request 1 100) = 12
   \<and> absolute_deadline (ex_request 1 100) = 8
   \<and> enqueue_request ex_full_sla_node (ex_request 1 100) 1
       = Inr (ex_full_sla_node, False, Some ''queue_full'')
   \<and> Some ''queue_full'' \<noteq> Some ''admission_rejected''"
  by (simp add: enqueue_request_def ex_simps)

text \<open>
  Claim C2, amended. On an SLA node the queue-length test is evaluated before the
  deadline-predictive test: a full node answers \<open>queue_full\<close> and is left unchanged,
  whatever the predicted finish time; the answer is \<open>admission_rejected\<close> exactly when the
  queue is not full and the predicted finish time exceeds the deadline.
\<close>

theorem sla_queue_test_first:
  assumes "is_sla (scheduler n)" and "cpu_capacity n \<noteq> 0"
  shows "(queue_is_full n \<longrightarrow> enqueue_request n r dt = Inr (n, False, Some ''queue_full''))
    \<and> ((\<exists>n'. enqueue_request n r dt = Inr (n', False, Some ''admission_rejected''))
          \<longleftrightarrow> (\<not> queue_is_full n \<and> absolute_deadline r < t_finish n r))"
proof (intro conjI impI)
  assume "queue_is_full n"
  then show "enqueue_request n r dt = Inr (n, False, Some ''queue_full'')"
    by (rule enqueue_full)
next
  show "(\<exists>n'. enqueue_request n r dt = Inr (n', False, Some ''admission_rejected''))
          \<longleftrightarrow> (\<not> queue_is_full n \<and> absolute_deadline r < t_finish n r)"
  proof (cases "queue_is_full n")
    case True
    then show ?thesis by (simp add: enqueue_full)
  next
    case nf: False
    show ?thesis
    proof (cases "t_finish n r \<le> absolute_deadline r")
      case True
      with nf enqueue_sla_admit [OF assms(1) nf assms(2) True, of dt] show ?thesis by auto
    next
      case False
      with nf enqueue_sla_reject [OF assms(1) nf assms(2) False] show ?thesis by simp
    qed
  qed
qed

theorem sla_queue_test_first_witness:
  "queue_is_full ex_full_sla_node
   \<and> enqueue_request ex_full_sla_node (ex_request 1 100) 1
       = Inr (ex_full_sla_node, False, Some ''queue_full'')
   \<and> \<not> queue_is_full (ex_node ''SLA-DWP-Fog'' None)
   \<and> absolute_deadline (ex_request 1 100) < t_finish (ex_node ''SLA-DWP-Fog'' None) (ex_request 1 100)
   \<and> (\<exists>n'. enqueue_request (ex_node ''SLA-DWP-Fog'' None) (ex_request 1 100) 1
          = Inr (n', False, Some ''admission_rejected''))"
  using sla_queue_test_first [of ex_full_sla_node "ex_request 1 100" 1]
    sla_queue_test_first [of "ex_node ''SLA-DWP-Fog'' None" "ex_request 1 100" 1]
  by (simp add: ex_simps)

section \<open>Adaptive weights\<close>

lemmas upd_simps = ex_history_node_def ex_request_def ex_node_def FogNode_init_def
  window_tasks_of_def getattr_def sla_J1_def sla_J2_def sla_J3_def mean_def latency_def
  deadline_met_def List.map_filter_def

lemma update_result:
  assumes "window_tasks_of n t \<noteq> []" and "0 < getattr (sla_eps n) (1 / 1000000)"
  shows "\<exists>n'. update_sla_weights_window n t = Inr n' \<and> sla_weights_ok n'
            \<and> 0 < alpha n' \<and> 0 < beta n' \<and> 0 < gamma n'"
proof -
  define eps where "eps = getattr (sla_eps n) (1 / 1000000)"
  define l1 where "l1 = max 0 (lambda_1 n + getattr (sla_eta1 n) (eta_1 n)
     * (sla_J1 (window_tasks_of n t) - getattr (sla_J1_max n) (1 / 10)))"
  define l2 where "l2 = max 0 (lambda_2 n + getattr (sla_eta2 n) (eta_2 n)
     * (sla_J2 (window_tasks_of n t) - getattr (sla_J2_max_s n) 5))"
  define l3 where "l3 = max 0 (lambda_3 n + getattr (sla_eta3 n) (eta_3 n)
     * (sla_J3 (window_tasks_of n t) - getattr (sla_J3_max n) 2))"
  define S where "S = (l1 + eps) + (l2 + eps) + (l3 + eps)"
  have pos: "0 < eps" "0 \<le> l1" "0 \<le> l2" "0 \<le> l3"
    using assms(2) by (simp_all add: eps_def l1_def l2_def l3_def)
  then have S: "0 < S" by (simp add: S_def)
  have upd: "update_sla_weights_window n t =
     Inr (n\<lparr>lambda_1 := l1, lambda_2 := l2, lambda_3 := l3,
            alpha := (l1 + eps) / S, beta := (l2 + eps) / S, gamma := (l3 + eps) / S\<rparr>)"
    using assms(1) S
    by (simp add: update_sla_weights_window_def Let_def eps_def l1_def l2_def l3_def S_def)
  have sum1: "(l1 + eps) / S + (l2 + eps) / S + (l3 + eps) / S = 1"
    using S by (simp add: S_def add_divide_distrib [symmetric])
  have le1: "(l1 + eps) / S \<le> 1" "(l2 + eps) / S \<le> 1" "(l3 + eps) / S \<le> 1"
    using S pos by (simp_all add: S_def)
  have gt0: "0 < (l1 + eps) / S" "0 < (l2 + eps) / S" "0 < (l3 + eps) / S"
    using S pos by simp_all
  show ?thesis
    unfolding upd using pos sum1 le1 gt0 by (simp add: sla_weights_ok_def)
qed

lemma update_result_nonneg:
  assumes "window_tasks_of n t \<noteq> []" and "0 \<le> getattr (sla_eps n) (1 / 1000000)"
    and "update_sla_weights_window n t = Inr n'"
  shows "sla_weights_ok n'"
proof -
  define eps where "eps = getattr (sla_eps n) (1 / 1000000)"
  define l1 where "l1 = max 0 (lambda_1 n + getattr (sla_eta1 n) (eta_1 n)
     * (sla_J1 (window_tasks_of n t) - getattr (sla_J1_max n) (1 / 10)))"
  define l2 where "l2 = max 0 (lambda_2 n + getattr (sla_eta2 n) (eta_2 n)
     * (sla_J2 (window_tasks_of n t) - getattr (sla_J2_max_s n) 5))"
  define l3 where "l3 = max 0 (lambda_3 n + getattr (sla_eta3 n) (eta_3 n)
     * (sla_J3 (window_tasks_of n t) - getattr (sla_J3_max n) 2))"
  define S where "S = (l1 + eps) + (l2 + eps) + (l3 + eps)"
  have pos: "0 \<le> eps" "0 \<le> l1" "0 \<le> l2" "0 \<le> l3"
    using assms(2) by (simp_all add: eps_def l1_def l2_def l3_def)
  have S0: "S \<noteq> 0" and upd: "n' = n\<lparr>lambda_1 := l1, lambda_2 := l2, lambda_3 := l3,
       alpha := (l1 + eps) / S, beta := (l2 + eps) / S, gamma := (l3 + eps) / S\<rparr>"
    using assms(1,3)
    by (auto simp add: update_sla_weights_window_def Let_def eps_def l1_def l2_def l3_def
          S_def split: if_splits)
  from pos have "0 \<le> S" by (simp add: S_def)
  with S0 have S: "0 < S" by simp
  have sum1: "(l1 + eps) / S + (l2 + eps) / S + (l3 + eps) / S = 1"
    using S by (simp add: S_def add_divide_distrib [symmetric])
  have le1: "(l1 + eps) / S \<le> 1" "(l2 + eps) / S \<le> 1" "(l3 + eps) / S \<le> 1"
    using S pos by (simp_all add: S_def)
  have ge0: "0 \<le> (l1 + eps) / S" "0 \<le> (l2 + eps) / S" "0 \<le> (l3 + eps) / S"
    using S pos by simp_all
  show ?thesis
    unfolding upd using pos sum1 le1 ge0 by (simp add: sla_weights_ok_def)
qed

lemma update_empty:
  "window_tasks_of n t = [] \<Longrightarrow> update_sla_weights_window n t = Inr n"
  by (simp add: update_sla_weights_window_def Let_def)

lemma update_keeps:
  "update_sla_weights_window n t = Inr n' \<Longrightarrow>
     sla_window_TW n' = sla_window_TW n \<and> last_window_update n' = last_window_update n"
  by (auto simp add: update_sla_weights_window_def Let_def split: if_splits)

text \<open>
  Claim C5. An execution of the adaptive weight update on an empty window returns the
  node unchanged. On a non-empty window, with a non-negative normalisation epsilon, every
  node the update returns has non-negative dual variables and weights \<open>alpha\<close>, \<open>beta\<close>,
  \<open>gamma\<close> in \<open>[0, 1]\<close> with sum 1; with a positive epsilon the update does return, and
  none of the weights is 0, whatever the dual variables are.
\<close>

theorem sla_weights_normalised:
  "(window_tasks_of n t = [] \<longrightarrow> update_sla_weights_window n t = Inr n)
   \<and> (window_tasks_of n t \<noteq> [] \<and> 0 \<le> getattr (sla_eps n) (1 / 1000000) \<longrightarrow>
        (\<forall>n'. update_sla_weights_window n t = Inr n' \<longrightarrow> sla_weights_ok n'))
   \<and> (window_tasks_of n t \<noteq> [] \<and> 0 < getattr (sla_eps n) (1 / 1000000) \<longrightarrow>
        (\<exists>n'. update_sla_weights_window n t = Inr n' \<and> sla_weights_ok n'
           \<and> alpha n' \<noteq> 0 \<and> beta n' \<noteq> 0 \<and> gamma n' \<noteq> 0))"
proof (intro conjI impI allI)
  assume "window_tasks_of n t = []"
  then show "update_sla_weights_window n t = Inr n" by (rule update_empty)
next
  fix n'
  assume "window_tasks_of n t \<noteq> [] \<and> 0 \<le> getattr (sla_eps n) (1 / 1000000)"
    and "update_sla_weights_window n t = Inr n'"
  then show "sla_weights_ok n'" by (blast intro: update_result_nonneg)
next
  assume "window_tasks_of n t \<noteq> [] \<and> 0 < getattr (sla_eps n) (1 / 1000000)"
  then have "\<exists>n'. update_sla_weights_window n t = Inr n' \<and> sla_weights_ok n'
            \<and> 0 < alpha n' \<and> 0 < beta n' \<and> 0 < gamma n'"
    by (simp add: update_result)
  then show "\<exists>n'. update_sla_weights_window n t = Inr n' \<and> sla_weights_ok n'
             \<and> alpha n' \<noteq> 0 \<and> beta n' \<noteq> 0 \<and> gamma n' \<noteq> 0"
    by fastforce
qed

text \<open>
  The theorem at a freshly built SLA node, whose window is empty and whose initial weights
  satisfy the invariant, and at a node with one completion in its window.
\<close>

theorem sla_weights_normalised_witness:
  "sla_weights_ok (ex_node ''SLA-DWP-Fog'' None)
   \<and> update_sla_weights_window (ex_node ''SLA-DWP-Fog'' None) 10
        = Inr (ex_node ''SLA-DWP-Fog'' None)
   \<and> (\<exists>n'. update_sla_weights_window ex_history_node 10 = Inr n' \<and> sla_weights_ok n'
          \<and> alpha n' \<noteq> 0 \<and> beta n' \<noteq> 0 \<and> gamma n' \<noteq> 0)"
  using sla_weights_normalised [of "ex_node ''SLA-DWP-Fog'' None" 10]
    sla_weights_normalised [of ex_history_node 10]
  by (simp add: upd_simps sla_weights_ok_def)

text \<open>
  Claim C6 states that a second application of the window update, at the same time and on
  the same window, changes nothing. On the node below the window holds one class-3
  completion that missed its deadline (\<open>J1 = 1\<close>); the window is the same after the first
  application, the first application gives \<open>lambda_1 = 0.009\<close> and the second \<open>0.018\<close>, and
  \<open>alpha\<close> differs too: every application adds \<open>eta * (J - J_max)\<close> to the dual variable.
\<close>

theorem sla_update_twice_counterexample:
  "map_sum id (\<lambda>n. window_tasks_of n 10) (update_sla_weights_window ex_history_node 10)
     = Inr (window_tasks_of ex_history_node 10)
   \<and> window_tasks_of ex_history_node 10 \<noteq> []
   \<and> map_sum id lambda_1 (update_sla_weights_window ex_history_node 10) = Inr (9 / 1000)
   \<and> map_sum id lambda_1 (update_twice ex_history_node 10) = Inr (18 / 1000)
   \<and> map_sum id alpha (update_sla_weights_window ex_history_node 10) = Inr (9001 / 49003)
   \<and> map_sum id alpha (update_twice ex_history_node 10) = Inr (18001 / 98003)"
  by (simp add: update_twice_def update_sla_weights_window_def Let_def upd_simps)

text \<open>
  Claim C6, amended. The window update is applied through the window-boundary block of
  \<open>process_one_step\<close>, which records the time of the update; with a positive window
  length, running that block a second time at the same simulation time leaves the node,
  and so the dual variables and the weights, as the first run left them.
\<close>

theorem window_boundary_idempotent:
  assumes "0 < getattr (sla_window_TW n) 10" and "sla_window_boundary n t = Inr n1"
  shows "sla_window_boundary n1 t = Inr n1"
proof (cases "t - last_window_update n \<ge> getattr (sla_window_TW n) 10")
  case True
  with assms(2) obtain n0 where u: "update_sla_weights_window n t = Inr n0"
    and n1: "n1 = n0\<lparr>last_window_update := t\<rparr>"
    by (auto simp add: sla_window_boundary_def Let_def split: sum.splits)
  from update_keeps [OF u] n1 have "sla_window_TW n1 = sla_window_TW n"
    and "last_window_update n1 = t" by simp_all
  with assms(1) show ?thesis by (simp add: sla_window_boundary_def Let_def)
next
  case False
  with assms(2) have "n1 = n" by (simp add: sla_window_boundary_def Let_def)
  with False show ?thesis by (simp add: sla_window_boundary_def Let_def)
qed

theorem window_boundary_idempotent_witness:
  "\<exists>n1. sla_window_boundary ex_history_node 10 = Inr n1 \<and> lambda_1 n1 = 9 / 1000
      \<and> sla_window_boundary n1 10 = Inr n1"
proof -
  have "\<exists>n1. sla_window_boundary ex_history_node 10 = Inr n1 \<and> lambda_1 n1 = 9 / 1000"
    by (simp add: sla_window_boundary_def update_sla_weights_window_def Let_def upd_simps)
  then obtain n1 where b: "sla_window_boundary ex_history_node 10 = Inr n1"
    and l: "lambda_1 n1 = 9 / 1000" by blast
  have tw: "0 < getattr (sla_window_TW ex_history_node) 10"
    by (simp add: upd_simps)
  from window_boundary_idempotent [OF tw b] b l show ?thesis by blast
qed

section \<open>Link budget\<close>

text \<open>
  Claim C7. The SLA branch of \<open>enqueue_request\<close> returns before the link-load update that
  the other branches reach. On an SLA node of link capacity 50 and step length 1, a
  request of data size 30 is admitted and the link-load accumulator stays 0, so a second
  request of data size 30 passes the link check although the two need 60; two such
  arrivals in one step are both admitted. A FIFO node in the same situation has
  accumulated 30, refuses the second request at the link check, and the engine drops it.
\<close>

theorem sla_link_load_unaccounted:
  "enqueue_request (ex_node ''SLA-DWP-Fog'' None) (ex_big_request 1) 1
     = Inr ((ex_node ''SLA-DWP-Fog'' None)\<lparr>dynamic_queue_3 := [ex_big_request 1]\<rparr>, True, None)
   \<and> current_link_load ((ex_node ''SLA-DWP-Fog'' None)\<lparr>dynamic_queue_3 := [ex_big_request 1]\<rparr>) = 0
   \<and> can_accept_request ((ex_node ''SLA-DWP-Fog'' None)\<lparr>dynamic_queue_3 := [ex_big_request 1]\<rparr>)
        (ex_big_request 2) 1
   \<and> map_sum id (\<lambda>(ns, m). (total_admitted m, total_dropped m))
       (route_requests 1 [ex_big_request 1, ex_big_request 2]
          ([ex_node ''SLA-DWP-Fog'' None], MetricsCollector_init)) = Inr (2, 0)
   \<and> enqueue_request (ex_node ''FIFO'' None) (ex_big_request 1) 1
     = Inr ((ex_node ''FIFO'' None)\<lparr>queue := [ex_big_request 1], current_link_load := 30\<rparr>,
            True, None)
   \<and> \<not> can_accept_request
          ((ex_node ''FIFO'' None)\<lparr>queue := [ex_big_request 1], current_link_load := 30\<rparr>)
          (ex_big_request 2) 1
   \<and> map_sum id (\<lambda>(ns, m). (total_admitted m, total_dropped m))
       (route_requests 1 [ex_big_request 1, ex_big_request 2]
          ([ex_node ''FIFO'' None], MetricsCollector_init)) = Inr (1, 1)"
  by (simp add: route_request_def get_nearest_fog_def nearest_step_def
        enqueue_request_def add_link_load_def
        admission_control_check_timebased_def dynamic_append_def
        can_accept_request_def ex_big_request_def ex_request_def ex_node_def FogNode_init_def
        get_total_queue_length_def is_sla_def Let_def MetricsCollector_init_def
        record_dropped_def)

section \<open>Configuration errors\<close>

lemma generator_init_ok: "\<not> isl (RequestGenerator_init c)"
  by (simp add: RequestGenerator_init_def initial_type_probabilities_def Let_def)

lemma build_ok:
  "0 < cfg_num_fog_nodes_x c \<Longrightarrow> 0 < cfg_num_fog_nodes_y c \<Longrightarrow> \<not> isl (build_grid_topology c)"
  by (simp add: build_grid_topology_def Let_def)

text \<open>
  Claim C10 states that a non-positive arrival bound fails fast. With
  \<open>max_requests_per_step = 0\<close> and otherwise default values the construction succeeds and
  two iterations of the run complete: the clock is at 2, nothing was generated, the four
  nodes exist.
\<close>

theorem no_arrivals_counterexample:
  "cfg_max_requests_per_step ex_config_no_arrivals \<le> 0
   \<and> \<not> isl (Simulation_init ex_config_no_arrivals ex_rng)
   \<and> map_sum id (\<lambda>s. (clock s, total_generated (metrics s), length (topology s)))
         (run_from ex_config_no_arrivals ex_rng 2) = Inr (2, 0, 4)"
  by (simp add: run_from_def Simulation_init_def build_grid_topology_def
     ex_config_no_arrivals_def default_config_def Let_def upto.simps grid_node_def FogNode_init_def
     RequestGenerator_init_def initial_type_probabilities_def MetricsCollector_init_def
     numeral_2_eq_2 sim_step_def step_length_def reset_step_state_def generate_requests_def
     process_one_step_def is_sla_def record_generated_def record_completed_def
     record_queue_lengths_def queue_length_def get_total_queue_length_def step_advance_def)

text \<open>
  Claim C10, amended. A non-positive grid dimension makes \<open>build_grid_topology\<close> raise
  \<open>ValueError\<close>, so the construction of the simulation fails and no step runs. With
  positive grid dimensions the construction succeeds whatever the arrival bound is; a
  non-positive \<open>max_requests_per_step\<close> is not an error: \<open>generate_requests\<close> then returns the
  empty list and leaves the generator and the random state untouched.
\<close>

theorem config_errors:
  "(cfg_num_fog_nodes_x c \<le> 0 \<or> cfg_num_fog_nodes_y c \<le> 0 \<longrightarrow>
       build_grid_topology c = Inl ValueError \<and> Simulation_init c g = Inl ValueError
       \<and> run_from c g k = Inl ValueError)
   \<and> (0 < cfg_num_fog_nodes_x c \<and> 0 < cfg_num_fog_nodes_y c \<longrightarrow> \<not> isl (Simulation_init c g))
   \<and> (cfg_max_requests_per_step c \<le> 0 \<longrightarrow> generate_requests c gen g t = ([], gen, g))"
proof (intro conjI impI)
  assume bad: "cfg_num_fog_nodes_x c \<le> 0 \<or> cfg_num_fog_nodes_y c \<le> 0"
  then show b: "build_grid_topology c = Inl ValueError"
    by (simp add: build_grid_topology_def)
  then show i: "Simulation_init c g = Inl ValueError"
    by (simp add: Simulation_init_def)
  then show "run_from c g k = Inl ValueError"
    by (simp add: run_from_def)
next
  assume "0 < cfg_num_fog_nodes_x c \<and> 0 < cfg_num_fog_nodes_y c"
  then have "\<not> isl (build_grid_topology c)" by (simp add: build_ok)
  with generator_init_ok [of c] show "\<not> isl (Simulation_init c g)"
    by (auto simp add: Simulation_init_def split: sum.splits)
next
  assume "cfg_max_requests_per_step c \<le> 0"
  then show "generate_requests c gen g t = ([], gen, g)"
    by (simp add: generate_requests_def Let_def)
qed

theorem config_errors_witness:
  "run_from (default_config\<lparr>cfg_num_fog_nodes_x := 0\<rparr>) ex_rng 1 = Inl ValueError
   \<and> \<not> isl (Simulation_init ex_config_no_arrivals ex_rng)
   \<and> generate_requests ex_config_no_arrivals
        \<lparr>next_request_id = 0, type_probabilities = []\<rparr> ex_rng 0
       = ([], \<lparr>next_request_id = 0, type_probabilities = []\<rparr>, ex_rng)"
  using config_errors [of "default_config\<lparr>cfg_num_fog_nodes_x := 0\<rparr>" ex_rng 1]
    config_errors [of ex_config_no_arrivals ex_rng 0
      "\<lparr>next_request_id = 0, type_probabilities = []\<rparr>" 0]
  by (simp add: default_config_def ex_config_no_arrivals_def)

section \<open>Processing one queue\<close>

lemma pq_nonpos: "cap \<le> 0 \<Longrightarrow> process_queue t dt cap q = (q, [], cap)"
  by (cases q) simp_all

lemma pq_length:
  "process_queue t dt cap q = (q', c, cap') \<Longrightarrow> length q' + length c = length q"
  by (induction q arbitrary: cap q' c cap')
    (auto simp add: Let_def split: if_splits prod.splits)

lemma pq_budget:
  "process_queue t dt cap q = (q', c, cap') \<Longrightarrow>
     total_remaining q - total_remaining c - total_remaining q' = cap - cap'"
proof (induction q arbitrary: cap q' c cap')
  case Nil
  then show ?case by (simp add: total_remaining_def)
next
  case (Cons req rest)
  show ?case
  proof (cases "cap > 0")
    case False
    with Cons.prems show ?thesis by (simp add: total_remaining_def)
  next
    case True
    show ?thesis
    proof (cases "remaining_demand req \<le> cap")
      case fit: True
      obtain q1 c1 cap1 where rec: "process_queue t dt (cap - remaining_demand req) rest = (q1, c1, cap1)"
        by (cases "process_queue t dt (cap - remaining_demand req) rest") auto
      from Cons.IH [OF rec] Cons.prems True fit rec show ?thesis
        by (auto simp add: total_remaining_def Let_def split: if_splits)
    next
      case False
      with Cons.prems True show ?thesis
        by (auto simp add: total_remaining_def Let_def split: if_splits)
    qed
  qed
qed

lemma pq_cap_nonneg:
  "process_queue t dt cap q = (q', c, cap') \<Longrightarrow> 0 \<le> cap \<Longrightarrow> 0 \<le> cap'"
  by (induction q arbitrary: cap q' c cap')
    (auto simp add: Let_def split: if_splits prod.splits)

lemma pq_leftover:
  "process_queue t dt cap q = (q', c, cap') \<Longrightarrow> q' \<noteq> [] \<Longrightarrow> cap' \<le> 0"
  by (induction q arbitrary: cap q' c cap')
    (auto simp add: Let_def split: if_splits prod.splits)

lemma started_rel:
  "same_identity r (if start_time r = None then r\<lparr>start_time := Some t\<rparr> else r)"
  "start_kept t r (if start_time r = None then r\<lparr>start_time := Some t\<rparr> else r)"
  by (auto simp add: same_identity_def runtime_cleared_def start_kept_def
        split: option.splits)

lemma pq_rel:
  "process_queue t dt cap q = (q', c, cap') \<Longrightarrow>
     list_all2 (completes t dt) (take (length c) q) c
     \<and> list_all2 (waits_or_served t) (drop (length c) q) q'"
proof (induction q arbitrary: cap q' c cap')
  case Nil
  then show ?case by simp
next
  case (Cons req rest)
  show ?case
  proof (cases "cap > 0")
    case False
    with Cons.prems show ?thesis
      by (simp add: waits_or_served_def list.rel_refl)
  next
    case True
    define req1 where "req1 = (if start_time req = None then req\<lparr>start_time := Some t\<rparr> else req)"
    show ?thesis
    proof (cases "remaining_demand req1 \<le> cap")
      case fit: True
      obtain q1 c1 cap1 where rec: "process_queue t dt (cap - remaining_demand req1) rest = (q1, c1, cap1)"
        by (cases "process_queue t dt (cap - remaining_demand req1) rest") auto
      have comp: "completes t dt req
         (req1\<lparr>remaining_demand := 0, completion_time := Some (t + dt)\<rparr>)"
        by (auto simp add: completes_def finished_def same_identity_def runtime_cleared_def
              start_kept_def req1_def split: option.splits)
      from Cons.prems True fit rec have res: "q' = q1"
        "c = req1\<lparr>remaining_demand := 0, completion_time := Some (t + dt)\<rparr> # c1"
        by (simp_all add: Let_def req1_def [symmetric])
      from Cons.IH [OF rec] comp show ?thesis by (simp add: res)
    next
      case False
      have part: "waits_or_served t req
         (req1\<lparr>remaining_demand := remaining_demand req1 - cap\<rparr>)"
        using False True
        by (auto simp add: waits_or_served_def partly_served_def progressed_def
              same_identity_def runtime_cleared_def start_kept_def req1_def
              split: option.splits)
      from Cons.prems True False have res: "c = []"
        "q' = req1\<lparr>remaining_demand := remaining_demand req1 - cap\<rparr> # rest"
        by (simp_all add: Let_def req1_def [symmetric])
      from part show ?thesis
        by (simp add: res waits_or_served_def list.rel_refl)
    qed
  qed
qed

lemma budget_left_0 [simp]: "budget_left cap q 0 = cap"
  by (simp add: budget_left_def total_remaining_def)

lemma budget_left_Suc [simp]:
  "budget_left cap (r # q) (Suc i) = budget_left (cap - remaining_demand r) q i"
  by (simp add: budget_left_def total_remaining_def)

lemma started_remaining [simp]: "remaining_demand (started t r) = remaining_demand r"
  by (simp add: started_def)

lemma pq_Cons:
  "process_queue t dt cap (req # rest) =
     (if cap > 0 then
        if remaining_demand req \<le> cap then
          (case process_queue t dt (cap - remaining_demand req) rest of
             (q, c, cap') \<Rightarrow> (q, finish_request t dt (started t req) # c, cap'))
        else (reduce_request cap (started t req) # rest, [], 0)
      else (req # rest, [], cap))"
  by (simp add: Let_def started_def finish_request_def reduce_request_def)

lemma pq_exact:
  "process_queue t dt cap q = (q', c, cap') \<Longrightarrow> queue_served t dt cap q q' c cap'"
proof (induction q arbitrary: cap q' c cap')
  case Nil
  then show ?case by (simp add: queue_served_def)
next
  case (Cons req rest)
  note eq = Cons.prems [unfolded pq_Cons]
  show ?case
  proof (cases "cap > 0")
    case False
    with eq have "q' = req # rest" "c = []" "cap' = cap" by simp_all
    with False show ?thesis by (simp add: queue_served_def)
  next
    case pos: True
    show ?thesis
    proof (cases "remaining_demand req \<le> cap")
      case False
      with eq pos have res: "c = []" "cap' = 0"
        "q' = reduce_request cap (started t req) # rest"
        by simp_all
      from pos False show ?thesis
        unfolding res by (simp add: queue_served_def)
    next
      case fit: True
      obtain q1 c1 cap1 where
        rec: "process_queue t dt (cap - remaining_demand req) rest = (q1, c1, cap1)"
        by (cases "process_queue t dt (cap - remaining_demand req) rest") auto
      from eq pos fit rec have res: "q' = q1" "cap' = cap1"
        "c = finish_request t dt (started t req) # c1"
        by simp_all
      from Cons.IH [OF rec]
      have ih: "queue_served t dt (cap - remaining_demand req) rest q1 c1 cap1" .
      then have len: "length c1 \<le> length rest"
        and c1: "c1 = map (\<lambda>r. finish_request t dt (started t r)) (take (length c1) rest)"
        and fits: "\<And>i. i < length c1 \<Longrightarrow>
            0 < budget_left (cap - remaining_demand req) rest i
            \<and> remaining_demand (rest ! i) \<le> budget_left (cap - remaining_demand req) rest i"
        and tail: "if length c1 = length rest
          then q1 = [] \<and> cap1 = budget_left (cap - remaining_demand req) rest (length c1)
          else if budget_left (cap - remaining_demand req) rest (length c1) \<le> 0
          then q1 = drop (length c1) rest
               \<and> cap1 = budget_left (cap - remaining_demand req) rest (length c1)
          else budget_left (cap - remaining_demand req) rest (length c1)
                 < remaining_demand (rest ! length c1)
               \<and> q1 = reduce_request (budget_left (cap - remaining_demand req) rest (length c1))
                        (started t (rest ! length c1)) # drop (Suc (length c1)) rest
               \<and> cap1 = 0"
        unfolding queue_served_def Let_def by blast+
      have all: "\<forall>i < Suc (length c1). 0 < budget_left cap (req # rest) i
          \<and> remaining_demand ((req # rest) ! i) \<le> budget_left cap (req # rest) i"
      proof (intro allI impI)
        fix i assume i: "i < Suc (length c1)"
        show "0 < budget_left cap (req # rest) i
          \<and> remaining_demand ((req # rest) ! i) \<le> budget_left cap (req # rest) i"
        proof (cases i)
          case 0
          with pos fit show ?thesis by simp
        next
          case (Suc j)
          with i fits [of j] show ?thesis by simp
        qed
      qed
      have c: "finish_request t dt (started t req) # c1
          = map (\<lambda>r. finish_request t dt (started t r)) (take (Suc (length c1)) (req # rest))"
        using c1 by simp
      show ?thesis
        unfolding res queue_served_def Let_def
      proof (intro conjI)
        show "length (finish_request t dt (started t req) # c1) \<le> length (req # rest)"
          using len by simp
        show "finish_request t dt (started t req) # c1 =
          map (\<lambda>r. finish_request t dt (started t r))
            (take (length (finish_request t dt (started t req) # c1)) (req # rest))"
          using c by simp
        show "\<forall>i<length (finish_request t dt (started t req) # c1).
          0 < budget_left cap (req # rest) i
          \<and> remaining_demand ((req # rest) ! i) \<le> budget_left cap (req # rest) i"
          using all by simp
        show "if length (finish_request t dt (started t req) # c1) = length (req # rest)
          then q1 = [] \<and> cap1 = budget_left cap (req # rest)
                                   (length (finish_request t dt (started t req) # c1))
          else if budget_left cap (req # rest)
                    (length (finish_request t dt (started t req) # c1)) \<le> 0
          then q1 = drop (length (finish_request t dt (started t req) # c1)) (req # rest)
               \<and> cap1 = budget_left cap (req # rest)
                          (length (finish_request t dt (started t req) # c1))
          else budget_left cap (req # rest) (length (finish_request t dt (started t req) # c1))
                 < remaining_demand ((req # rest) ! length (finish_request t dt (started t req) # c1))
               \<and> q1 = reduce_request
                        (budget_left cap (req # rest)
                           (length (finish_request t dt (started t req) # c1)))
                        (started t ((req # rest) ! length (finish_request t dt (started t req) # c1)))
                      # drop (Suc (length (finish_request t dt (started t req) # c1))) (req # rest)
               \<and> cap1 = 0"
          using tail by simp
      qed
    qed
  qed
qed

lemma queue_served_count:
  assumes "queue_served t dt cap q q1 c1 cap1" and "queue_served t dt cap q q2 c2 cap2"
  shows "length c1 \<le> length c2"
proof (rule ccontr)
  assume "\<not> length c1 \<le> length c2"
  then have lt: "length c2 < length c1" by simp
  from assms(1) have "length c1 \<le> length q"
    and "\<forall>i < length c1. 0 < budget_left cap q i
           \<and> remaining_demand (q ! i) \<le> budget_left cap q i"
    unfolding queue_served_def Let_def by blast+
  with lt have a: "length c2 \<noteq> length q" "0 < budget_left cap q (length c2)"
    "remaining_demand (q ! length c2) \<le> budget_left cap q (length c2)"
    by simp_all
  from assms(2) have "if length c2 = length q then q2 = [] \<and> cap2 = budget_left cap q (length c2)
      else if budget_left cap q (length c2) \<le> 0
           then q2 = drop (length c2) q \<and> cap2 = budget_left cap q (length c2)
           else budget_left cap q (length c2) < remaining_demand (q ! length c2)
                \<and> q2 = reduce_request (budget_left cap q (length c2)) (started t (q ! length c2))
                         # drop (Suc (length c2)) q
                \<and> cap2 = 0"
    unfolding queue_served_def Let_def by blast
  with a show False by simp
qed

lemma queue_served_unique:
  assumes "queue_served t dt cap q q1 c1 cap1" and "queue_served t dt cap q q2 c2 cap2"
  shows "q1 = q2 \<and> c1 = c2 \<and> cap1 = cap2"
proof -
  from queue_served_count [OF assms] queue_served_count [OF assms(2,1)]
  have len: "length c1 = length c2" by simp
  from assms have "c1 = map (\<lambda>r. finish_request t dt (started t r)) (take (length c1) q)"
    "c2 = map (\<lambda>r. finish_request t dt (started t r)) (take (length c2) q)"
    unfolding queue_served_def Let_def by blast+
  with len have c: "c1 = c2" by simp
  from assms(1) have t1: "if length c1 = length q
      then q1 = [] \<and> cap1 = budget_left cap q (length c1)
      else if budget_left cap q (length c1) \<le> 0
           then q1 = drop (length c1) q \<and> cap1 = budget_left cap q (length c1)
           else budget_left cap q (length c1) < remaining_demand (q ! length c1)
                \<and> q1 = reduce_request (budget_left cap q (length c1)) (started t (q ! length c1))
                         # drop (Suc (length c1)) q
                \<and> cap1 = 0"
    unfolding queue_served_def Let_def by blast
  from assms(2) have t2: "if length c2 = length q
      then q2 = [] \<and> cap2 = budget_left cap q (length c2)
      else if budget_left cap q (length c2) \<le> 0
           then q2 = drop (length c2) q \<and> cap2 = budget_left cap q (length c2)
           else budget_left cap q (length c2) < remaining_demand (q ! length c2)
                \<and> q2 = reduce_request (budget_left cap q (length c2)) (started t (q ! length c2))
                         # drop (Suc (length c2)) q
                \<and> cap2 = 0"
    unfolding queue_served_def Let_def by blast
  from t1 t2 len c show ?thesis by (simp split: if_splits)
qed

lemma queue_served_iff:
  "queue_served t dt cap q q' c cap' \<longleftrightarrow> process_queue t dt cap q = (q', c, cap')"
proof
  assume a: "queue_served t dt cap q q' c cap'"
  obtain q1 c1 cap1 where p: "process_queue t dt cap q = (q1, c1, cap1)"
    by (cases "process_queue t dt cap q") auto
  from queue_served_unique [OF a pq_exact [OF p]] p
  show "process_queue t dt cap q = (q', c, cap')" by simp
next
  assume "process_queue t dt cap q = (q', c, cap')"
  then show "queue_served t dt cap q q' c cap'" by (rule pq_exact)
qed

lemma queue_served_leftover:
  assumes "queue_served t dt cap q q' c cap'" and "q' \<noteq> []"
  shows "cap' \<le> 0"
  using assms unfolding queue_served_def Let_def by (auto split: if_splits)

lemma queue_served_nonpos:
  assumes "queue_served t dt cap q q' c cap'" and "cap \<le> 0"
  shows "q' = q \<and> c = [] \<and> cap' = cap"
proof -
  from assms(2) have "process_queue t dt cap q = (q, [], cap)" by (rule pq_nonpos)
  from queue_served_unique [OF assms(1) pq_exact [OF this]] show ?thesis .
qed

section \<open>Priority order\<close>

lemma static_step:
  assumes "scheduler n = ''STATIC_PRIORITY''" and "process_one_step n t dt = Inr (n', completed)"
  shows "\<exists>c3 c2 c1 cap3 cap2 cap1. completed = c3 @ c2 @ c1
     \<and> n' = n\<lparr>priority_queue_3 := priority_queue_3 n',
              priority_queue_2 := priority_queue_2 n',
              priority_queue_1 := priority_queue_1 n'\<rparr>
     \<and> queue_served t dt (cpu_capacity n * dt) (priority_queue_3 n) (priority_queue_3 n') c3 cap3
     \<and> queue_served t dt cap3 (priority_queue_2 n) (priority_queue_2 n') c2 cap2
     \<and> queue_served t dt cap2 (priority_queue_1 n) (priority_queue_1 n') c1 cap1"
proof -
  obtain q3 c3 cap3 where p3:
    "process_queue t dt (cpu_capacity n * dt) (priority_queue_3 n) = (q3, c3, cap3)"
    by (cases "process_queue t dt (cpu_capacity n * dt) (priority_queue_3 n)") auto
  obtain q2 c2 cap2 where p2: "process_queue t dt cap3 (priority_queue_2 n) = (q2, c2, cap2)"
    by (cases "process_queue t dt cap3 (priority_queue_2 n)") auto
  obtain q1 c1 cap1 where p1: "process_queue t dt cap2 (priority_queue_1 n) = (q1, c1, cap1)"
    by (cases "process_queue t dt cap2 (priority_queue_1 n)") auto
  from assms p3 p2 p1 have res: "completed = c3 @ c2 @ c1"
    and n': "n' = n\<lparr>priority_queue_3 := q3, priority_queue_2 := q2, priority_queue_1 := q1\<rparr>"
    by (auto simp add: process_one_step_def is_sla_def Let_def)
  from n' have q: "priority_queue_3 n' = q3" "priority_queue_2 n' = q2"
    "priority_queue_1 n' = q1"
    by simp_all
  show ?thesis
    unfolding q
  proof (intro exI conjI)
    show "completed = c3 @ c2 @ c1" by (rule res)
    show "n' = n\<lparr>priority_queue_3 := q3, priority_queue_2 := q2, priority_queue_1 := q1\<rparr>"
      by (rule n')
    show "queue_served t dt (cpu_capacity n * dt) (priority_queue_3 n) q3 c3 cap3"
      by (rule pq_exact [OF p3])
    show "queue_served t dt cap3 (priority_queue_2 n) q2 c2 cap2" by (rule pq_exact [OF p2])
    show "queue_served t dt cap2 (priority_queue_1 n) q1 c1 cap1" by (rule pq_exact [OF p1])
  qed
qed

lemma static_order:
  assumes "scheduler n = ''STATIC_PRIORITY''" and "process_one_step n t dt = Inr (n', completed)"
  shows "\<exists>c3 c2 c1 cap3 cap2 cap1. completed = c3 @ c2 @ c1
     \<and> n' = n\<lparr>priority_queue_3 := priority_queue_3 n',
              priority_queue_2 := priority_queue_2 n',
              priority_queue_1 := priority_queue_1 n'\<rparr>
     \<and> queue_served t dt (cpu_capacity n * dt) (priority_queue_3 n) (priority_queue_3 n') c3 cap3
     \<and> queue_served t dt cap3 (priority_queue_2 n) (priority_queue_2 n') c2 cap2
     \<and> queue_served t dt cap2 (priority_queue_1 n) (priority_queue_1 n') c1 cap1
     \<and> (priority_queue_3 n' \<noteq> [] \<longrightarrow> cap3 \<le> 0 \<and> c2 = [] \<and> c1 = []
           \<and> priority_queue_2 n' = priority_queue_2 n \<and> priority_queue_1 n' = priority_queue_1 n)
     \<and> (priority_queue_2 n' \<noteq> [] \<longrightarrow> cap2 \<le> 0 \<and> c1 = []
           \<and> priority_queue_1 n' = priority_queue_1 n)"
proof -
  from static_step [OF assms] obtain c3 c2 c1 cap3 cap2 cap1 where
    res: "completed = c3 @ c2 @ c1"
    and n': "n' = n\<lparr>priority_queue_3 := priority_queue_3 n',
              priority_queue_2 := priority_queue_2 n',
              priority_queue_1 := priority_queue_1 n'\<rparr>"
    and s3: "queue_served t dt (cpu_capacity n * dt) (priority_queue_3 n)
               (priority_queue_3 n') c3 cap3"
    and s2: "queue_served t dt cap3 (priority_queue_2 n) (priority_queue_2 n') c2 cap2"
    and s1: "queue_served t dt cap2 (priority_queue_1 n) (priority_queue_1 n') c1 cap1"
    by blast
  have hi: "cap3 \<le> 0 \<and> c2 = [] \<and> c1 = []
      \<and> priority_queue_2 n' = priority_queue_2 n \<and> priority_queue_1 n' = priority_queue_1 n"
    if "priority_queue_3 n' \<noteq> []"
  proof -
    from queue_served_leftover [OF s3 that] have le: "cap3 \<le> 0" .
    from queue_served_nonpos [OF s2 le] have a: "priority_queue_2 n' = priority_queue_2 n"
      "c2 = []" "cap2 = cap3" by simp_all
    from le a(3) have "cap2 \<le> 0" by simp
    from queue_served_nonpos [OF s1 this] a le show ?thesis by simp
  qed
  have mid: "cap2 \<le> 0 \<and> c1 = [] \<and> priority_queue_1 n' = priority_queue_1 n"
    if "priority_queue_2 n' \<noteq> []"
  proof -
    from queue_served_leftover [OF s2 that] have le: "cap2 \<le> 0" .
    from queue_served_nonpos [OF s1 le] le show ?thesis by simp
  qed
  show ?thesis
  proof (intro exI conjI)
    show "completed = c3 @ c2 @ c1" by (rule res)
    show "n' = n\<lparr>priority_queue_3 := priority_queue_3 n',
              priority_queue_2 := priority_queue_2 n',
              priority_queue_1 := priority_queue_1 n'\<rparr>" by (rule n')
    show "queue_served t dt (cpu_capacity n * dt) (priority_queue_3 n)
               (priority_queue_3 n') c3 cap3" by (rule s3)
    show "queue_served t dt cap3 (priority_queue_2 n) (priority_queue_2 n') c2 cap2"
      by (rule s2)
    show "queue_served t dt cap2 (priority_queue_1 n) (priority_queue_1 n') c1 cap1"
      by (rule s1)
    show "priority_queue_3 n' \<noteq> [] \<longrightarrow> cap3 \<le> 0 \<and> c2 = [] \<and> c1 = []
      \<and> priority_queue_2 n' = priority_queue_2 n \<and> priority_queue_1 n' = priority_queue_1 n"
      using hi by blast
    show "priority_queue_2 n' \<noteq> [] \<longrightarrow> cap2 \<le> 0 \<and> c1 = []
      \<and> priority_queue_1 n' = priority_queue_1 n"
      using mid by blast
  qed
qed

lemma emergency_step:
  assumes "scheduler n = ''EMERGENCY_FIRST''" and "process_one_step n t dt = Inr (n', completed)"
  shows "\<exists>ce cn cape capn. completed = ce @ cn
     \<and> n' = n\<lparr>emergency_queue := emergency_queue n', normal_queue := normal_queue n'\<rparr>
     \<and> queue_served t dt (cpu_capacity n * dt) (emergency_queue n) (emergency_queue n') ce cape
     \<and> queue_served t dt cape (normal_queue n) (normal_queue n') cn capn"
proof -
  obtain qe ce cape where pe:
    "process_queue t dt (cpu_capacity n * dt) (emergency_queue n) = (qe, ce, cape)"
    by (cases "process_queue t dt (cpu_capacity n * dt) (emergency_queue n)") auto
  obtain qn cn capn where pn: "process_queue t dt cape (normal_queue n) = (qn, cn, capn)"
    by (cases "process_queue t dt cape (normal_queue n)") auto
  from assms pe pn have res: "completed = ce @ cn"
    and n': "n' = n\<lparr>emergency_queue := qe, normal_queue := qn\<rparr>"
    by (auto simp add: process_one_step_def is_sla_def Let_def)
  from n' have q: "emergency_queue n' = qe" "normal_queue n' = qn" by simp_all
  show ?thesis
    unfolding q
  proof (intro exI conjI)
    show "completed = ce @ cn" by (rule res)
    show "n' = n\<lparr>emergency_queue := qe, normal_queue := qn\<rparr>" by (rule n')
    show "queue_served t dt (cpu_capacity n * dt) (emergency_queue n) qe ce cape"
      by (rule pq_exact [OF pe])
    show "queue_served t dt cape (normal_queue n) qn cn capn" by (rule pq_exact [OF pn])
  qed
qed

lemma emergency_order:
  assumes "scheduler n = ''EMERGENCY_FIRST''" and "process_one_step n t dt = Inr (n', completed)"
  shows "\<exists>ce cn cape capn. completed = ce @ cn
     \<and> n' = n\<lparr>emergency_queue := emergency_queue n', normal_queue := normal_queue n'\<rparr>
     \<and> queue_served t dt (cpu_capacity n * dt) (emergency_queue n) (emergency_queue n') ce cape
     \<and> queue_served t dt cape (normal_queue n) (normal_queue n') cn capn
     \<and> (emergency_queue n' \<noteq> [] \<longrightarrow> cape \<le> 0 \<and> cn = []
           \<and> normal_queue n' = normal_queue n)"
proof -
  from emergency_step [OF assms] obtain ce cn cape capn where
    res: "completed = ce @ cn"
    and n': "n' = n\<lparr>emergency_queue := emergency_queue n', normal_queue := normal_queue n'\<rparr>"
    and se: "queue_served t dt (cpu_capacity n * dt) (emergency_queue n)
               (emergency_queue n') ce cape"
    and sn: "queue_served t dt cape (normal_queue n) (normal_queue n') cn capn"
    by blast
  have hi: "cape \<le> 0 \<and> cn = [] \<and> normal_queue n' = normal_queue n"
    if "emergency_queue n' \<noteq> []"
  proof -
    from queue_served_leftover [OF se that] have le: "cape \<le> 0" .
    from queue_served_nonpos [OF sn le] le show ?thesis by simp
  qed
  show ?thesis
  proof (intro exI conjI)
    show "completed = ce @ cn" by (rule res)
    show "n' = n\<lparr>emergency_queue := emergency_queue n', normal_queue := normal_queue n'\<rparr>"
      by (rule n')
    show "queue_served t dt (cpu_capacity n * dt) (emergency_queue n)
               (emergency_queue n') ce cape" by (rule se)
    show "queue_served t dt cape (normal_queue n) (normal_queue n') cn capn" by (rule sn)
    show "emergency_queue n' \<noteq> [] \<longrightarrow> cape \<le> 0 \<and> cn = []
           \<and> normal_queue n' = normal_queue n"
      using hi by blast
  qed
qed

lemma fifo_step:
  assumes "\<not> is_sla (scheduler n)" and "scheduler n \<noteq> ''STATIC_PRIORITY''"
    and "scheduler n \<noteq> ''EMERGENCY_FIRST''"
    and "process_one_step n t dt = Inr (n', completed)"
  shows "\<exists>cap'. n' = n\<lparr>queue := queue n'\<rparr>
     \<and> queue_served t dt (cpu_capacity n * dt) (queue n) (queue n') completed cap'"
proof -
  obtain q c cap1 where p:
    "process_queue t dt (cpu_capacity n * dt) (queue n) = (q, c, cap1)"
    by (cases "process_queue t dt (cpu_capacity n * dt) (queue n)") auto
  from assms p have res: "completed = c" and n': "n' = n\<lparr>queue := q\<rparr>"
    by (auto simp add: process_one_step_def Let_def)
  from n' have q: "queue n' = q" by simp
  show ?thesis
    unfolding q res
  proof (intro exI conjI)
    show "n' = n\<lparr>queue := q\<rparr>" by (rule n')
    show "queue_served t dt (cpu_capacity n * dt) (queue n) q c cap1" by (rule pq_exact [OF p])
  qed
qed

lemma static_enqueue:
  assumes "scheduler n = ''STATIC_PRIORITY''" and "enqueue_request n r dt = Inr (n', True, None)"
  shows "priority_queue_3 n' = priority_queue_3 n @ (if priority_class r = 3 then [r] else [])
     \<and> priority_queue_2 n' = priority_queue_2 n @ (if priority_class r = 2 then [r] else [])
     \<and> priority_queue_1 n' = priority_queue_1 n
          @ (if priority_class r \<noteq> 3 \<and> priority_class r \<noteq> 2 then [r] else [])"
  using assms
  by (auto simp add: enqueue_request_def is_sla_def Let_def priority_append_def
        add_link_load_def split: if_splits option.splits)

lemma emergency_enqueue:
  assumes "scheduler n = ''EMERGENCY_FIRST''" and "enqueue_request n r dt = Inr (n', True, None)"
  shows "emergency_queue n' = emergency_queue n @ (if is_emergency r then [r] else [])
     \<and> normal_queue n' = normal_queue n @ (if is_emergency r then [] else [r])"
  using assms
  by (auto simp add: enqueue_request_def is_sla_def Let_def emergency_append_def
        add_link_load_def split: if_splits option.splits)

lemmas step_simps = process_one_step_def is_sla_def Let_def ex_static_node_def
  ex_emergency_node_def ex_node_def FogNode_init_def ex_request_def ex_low_request_def

text \<open>
  Claim C8. A step of a Static-Priority node serves queue 3 with the budget
  \<open>cpu_capacity * time_step\<close>, then queue 2 with the budget queue 3 left, then queue 1 with
  the budget queue 2 left, and changes nothing else of the node; an Emergency-First node
  serves the emergency queue and then the normal queue in the same way. Each queue is
  served from its head in its order (\<open>queue_served\<close>): the completed requests are the
  first requests of the queue, each reached with a positive budget that covered its
  remaining demand; the request behind them, if there is one, was reached with no budget
  left and is untouched, or was reached with a positive budget smaller than its remaining
  demand and stays at the head, started and reduced by exactly that budget; every request
  further behind is untouched. When a request is still queued in queue 3 after the step,
  no budget was left for queue 2, so queues 2 and 1 are untouched, none of their requests
  was started and none completed; when one is still queued in queue 2, queue 1 is
  untouched. The same holds for the emergency queue and the normal queue. Admission
  places a request of class 3 (class 2, any other class) at the tail of queue 3 (queue 2,
  queue 1), and an emergency (non-emergency) request at the tail of the emergency
  (normal) queue.
\<close>

theorem strict_priority_order:
  "(scheduler n = ''STATIC_PRIORITY'' \<and> process_one_step n t dt = Inr (n', completed) \<longrightarrow>
      (\<exists>c3 c2 c1 cap3 cap2 cap1. completed = c3 @ c2 @ c1
         \<and> n' = n\<lparr>priority_queue_3 := priority_queue_3 n',
                  priority_queue_2 := priority_queue_2 n',
                  priority_queue_1 := priority_queue_1 n'\<rparr>
         \<and> queue_served t dt (cpu_capacity n * dt) (priority_queue_3 n)
              (priority_queue_3 n') c3 cap3
         \<and> queue_served t dt cap3 (priority_queue_2 n) (priority_queue_2 n') c2 cap2
         \<and> queue_served t dt cap2 (priority_queue_1 n) (priority_queue_1 n') c1 cap1
         \<and> (priority_queue_3 n' \<noteq> [] \<longrightarrow> cap3 \<le> 0 \<and> c2 = [] \<and> c1 = []
               \<and> priority_queue_2 n' = priority_queue_2 n
               \<and> priority_queue_1 n' = priority_queue_1 n)
         \<and> (priority_queue_2 n' \<noteq> [] \<longrightarrow> cap2 \<le> 0 \<and> c1 = []
               \<and> priority_queue_1 n' = priority_queue_1 n)))
   \<and> (scheduler n = ''EMERGENCY_FIRST'' \<and> process_one_step n t dt = Inr (n', completed) \<longrightarrow>
      (\<exists>ce cn cape capn. completed = ce @ cn
         \<and> n' = n\<lparr>emergency_queue := emergency_queue n', normal_queue := normal_queue n'\<rparr>
         \<and> queue_served t dt (cpu_capacity n * dt) (emergency_queue n)
              (emergency_queue n') ce cape
         \<and> queue_served t dt cape (normal_queue n) (normal_queue n') cn capn
         \<and> (emergency_queue n' \<noteq> [] \<longrightarrow> cape \<le> 0 \<and> cn = []
               \<and> normal_queue n' = normal_queue n)))
   \<and> (scheduler n = ''STATIC_PRIORITY'' \<and> enqueue_request n r dt = Inr (n1, True, None) \<longrightarrow>
        priority_queue_3 n1 = priority_queue_3 n @ (if priority_class r = 3 then [r] else [])
        \<and> priority_queue_2 n1 = priority_queue_2 n @ (if priority_class r = 2 then [r] else [])
        \<and> priority_queue_1 n1 = priority_queue_1 n
             @ (if priority_class r \<noteq> 3 \<and> priority_class r \<noteq> 2 then [r] else []))
   \<and> (scheduler n = ''EMERGENCY_FIRST'' \<and> enqueue_request n r dt = Inr (n1, True, None) \<longrightarrow>
        emergency_queue n1 = emergency_queue n @ (if is_emergency r then [r] else [])
        \<and> normal_queue n1 = normal_queue n @ (if is_emergency r then [] else [r]))"
proof (intro conjI impI)
  assume a: "scheduler n = ''STATIC_PRIORITY'' \<and> process_one_step n t dt = Inr (n', completed)"
  from a have s: "scheduler n = ''STATIC_PRIORITY''"
    and p: "process_one_step n t dt = Inr (n', completed)" by simp_all
  show "\<exists>c3 c2 c1 cap3 cap2 cap1. completed = c3 @ c2 @ c1
         \<and> n' = n\<lparr>priority_queue_3 := priority_queue_3 n',
                  priority_queue_2 := priority_queue_2 n',
                  priority_queue_1 := priority_queue_1 n'\<rparr>
         \<and> queue_served t dt (cpu_capacity n * dt) (priority_queue_3 n)
              (priority_queue_3 n') c3 cap3
         \<and> queue_served t dt cap3 (priority_queue_2 n) (priority_queue_2 n') c2 cap2
         \<and> queue_served t dt cap2 (priority_queue_1 n) (priority_queue_1 n') c1 cap1
         \<and> (priority_queue_3 n' \<noteq> [] \<longrightarrow> cap3 \<le> 0 \<and> c2 = [] \<and> c1 = []
               \<and> priority_queue_2 n' = priority_queue_2 n
               \<and> priority_queue_1 n' = priority_queue_1 n)
         \<and> (priority_queue_2 n' \<noteq> [] \<longrightarrow> cap2 \<le> 0 \<and> c1 = []
               \<and> priority_queue_1 n' = priority_queue_1 n)"
    by (rule static_order [OF s p])
next
  assume a: "scheduler n = ''EMERGENCY_FIRST'' \<and> process_one_step n t dt = Inr (n', completed)"
  from a have s: "scheduler n = ''EMERGENCY_FIRST''"
    and p: "process_one_step n t dt = Inr (n', completed)" by simp_all
  show "\<exists>ce cn cape capn. completed = ce @ cn
         \<and> n' = n\<lparr>emergency_queue := emergency_queue n', normal_queue := normal_queue n'\<rparr>
         \<and> queue_served t dt (cpu_capacity n * dt) (emergency_queue n)
              (emergency_queue n') ce cape
         \<and> queue_served t dt cape (normal_queue n) (normal_queue n') cn capn
         \<and> (emergency_queue n' \<noteq> [] \<longrightarrow> cape \<le> 0 \<and> cn = []
               \<and> normal_queue n' = normal_queue n)"
    by (rule emergency_order [OF s p])
next
  assume a: "scheduler n = ''STATIC_PRIORITY'' \<and> enqueue_request n r dt = Inr (n1, True, None)"
  from a static_enqueue [of n r dt n1]
  show "priority_queue_3 n1 = priority_queue_3 n @ (if priority_class r = 3 then [r] else [])"
    by blast
  from a static_enqueue [of n r dt n1]
  show "priority_queue_2 n1 = priority_queue_2 n @ (if priority_class r = 2 then [r] else [])"
    by blast
  from a static_enqueue [of n r dt n1]
  show "priority_queue_1 n1 = priority_queue_1 n
             @ (if priority_class r \<noteq> 3 \<and> priority_class r \<noteq> 2 then [r] else [])"
    by blast
next
  assume a: "scheduler n = ''EMERGENCY_FIRST'' \<and> enqueue_request n r dt = Inr (n1, True, None)"
  from a emergency_enqueue [of n r dt n1]
  show "emergency_queue n1 = emergency_queue n @ (if is_emergency r then [r] else [])"
    by blast
  from a emergency_enqueue [of n r dt n1]
  show "normal_queue n1 = normal_queue n @ (if is_emergency r then [] else [r])"
    by blast
qed

text \<open>
  The theorem at nodes of capacity 10 that hold a class-3 (emergency) request of demand 20
  and a class-1 (normal) request of demand 4: a step of length 1 serves half of the first
  and leaves the second untouched; and at the admission of a class-1 request.
\<close>

theorem strict_priority_order_witness:
  "process_one_step ex_static_node 0 1
     = Inr (ex_static_node
              \<lparr>priority_queue_3 := [(ex_request 0 20)\<lparr>remaining_demand := 10, start_time := Some 0\<rparr>]\<rparr>,
            [])
   \<and> process_one_step ex_emergency_node 0 1
     = Inr (ex_emergency_node
              \<lparr>emergency_queue := [(ex_request 0 20)\<lparr>remaining_demand := 10, start_time := Some 0\<rparr>]\<rparr>,
            [])
   \<and> enqueue_request ex_static_node (ex_low_request 2 4) 1
     = Inr (ex_static_node
              \<lparr>priority_queue_1 := [ex_low_request 1 4, ex_low_request 2 4],
               current_link_load := 1\<rparr>, True, None)
   \<and> enqueue_request ex_emergency_node (ex_low_request 2 4) 1
     = Inr (ex_emergency_node
              \<lparr>normal_queue := [ex_low_request 1 4, ex_low_request 2 4],
               current_link_load := 1\<rparr>, True, None)"
  using strict_priority_order [of ex_static_node 0 1
      "ex_static_node
         \<lparr>priority_queue_3 := [(ex_request 0 20)\<lparr>remaining_demand := 10, start_time := Some 0\<rparr>]\<rparr>"
      "[]" "ex_low_request 2 4"
      "ex_static_node
         \<lparr>priority_queue_1 := [ex_low_request 1 4, ex_low_request 2 4], current_link_load := 1\<rparr>"]
    strict_priority_order [of ex_emergency_node 0 1
      "ex_emergency_node
         \<lparr>emergency_queue := [(ex_request 0 20)\<lparr>remaining_demand := 10, start_time := Some 0\<rparr>]\<rparr>"
      "[]" "ex_low_request 2 4"
      "ex_emergency_node
         \<lparr>normal_queue := [ex_low_request 1 4, ex_low_request 2 4], current_link_load := 1\<rparr>"]
  by (simp add: step_simps enqueue_request_def get_total_queue_length_def
        priority_append_def emergency_append_def add_link_load_def)

section \<open>Composition of step relations\<close>

lemma same_identity_refl: "same_identity r r"
  by (simp add: same_identity_def)

lemma same_identity_trans:
  "same_identity r r1 \<Longrightarrow> same_identity r1 r2 \<Longrightarrow> same_identity r r2"
  by (simp add: same_identity_def)

lemma start_kept_refl: "start_kept t r r"
  by (simp add: start_kept_def split: option.splits)

lemma start_kept_trans: "start_kept t r r1 \<Longrightarrow> start_kept t r1 r2 \<Longrightarrow> start_kept t r r2"
  by (auto simp add: start_kept_def split: option.splits)

lemma stays_refl: "stays t r r"
  by (simp add: stays_def same_identity_refl start_kept_refl)

lemma stays_trans: "stays t r r1 \<Longrightarrow> stays t r1 r2 \<Longrightarrow> stays t r r2"
  unfolding stays_def progressed_def
  by (auto intro: same_identity_trans start_kept_trans)

lemma stays_finished: "stays t r r1 \<Longrightarrow> finished t dt r1 r2 \<Longrightarrow> finished t dt r r2"
  unfolding stays_def progressed_def finished_def
  by (auto intro: same_identity_trans start_kept_trans)

lemma step_relates_refl: "step_relates t dt A [] A"
  by (auto simp add: step_relates_def intro: stays_refl)

lemma step_relates_trans:
  assumes "step_relates t dt A C1 B" and "step_relates t dt B C2 B'"
  shows "step_relates t dt A (C1 @ C2) B'"
proof -
  from assms have
    a1: "\<And>r'. r' \<in> set C1 \<Longrightarrow> \<exists>r\<in>set A. finished t dt r r'" and
    a2: "\<And>r'. r' \<in> set B \<Longrightarrow> \<exists>r\<in>set A. stays t r r'" and
    a3: "\<And>r. r \<in> set A \<Longrightarrow>
           (\<exists>r'\<in>set C1. finished t dt r r') \<or> (\<exists>r'\<in>set B. stays t r r')" and
    b1: "\<And>r'. r' \<in> set C2 \<Longrightarrow> \<exists>r\<in>set B. finished t dt r r'" and
    b2: "\<And>r'. r' \<in> set B' \<Longrightarrow> \<exists>r\<in>set B. stays t r r'" and
    b3: "\<And>r. r \<in> set B \<Longrightarrow>
           (\<exists>r'\<in>set C2. finished t dt r r') \<or> (\<exists>r'\<in>set B'. stays t r r')" and
    len: "length B + length C1 = length A" "length B' + length C2 = length B"
    unfolding step_relates_def by simp_all
  have c1: "\<exists>r\<in>set A. finished t dt r r'" if "r' \<in> set (C1 @ C2)" for r'
  proof (cases "r' \<in> set C1")
    case True
    then show ?thesis by (rule a1)
  next
    case False
    with that have "r' \<in> set C2" by simp
    from b1 [OF this] obtain x where x: "x \<in> set B" "finished t dt x r'" by blast
    from a2 [OF x(1)] obtain r where r: "r \<in> set A" "stays t r x" by blast
    from stays_finished [OF r(2) x(2)] r(1) show ?thesis by blast
  qed
  have c2: "\<exists>r\<in>set A. stays t r r'" if "r' \<in> set B'" for r'
  proof -
    from b2 [OF that] obtain x where x: "x \<in> set B" "stays t x r'" by blast
    from a2 [OF x(1)] obtain r where r: "r \<in> set A" "stays t r x" by blast
    from stays_trans [OF r(2) x(2)] r(1) show ?thesis by blast
  qed
  have c3: "(\<exists>r'\<in>set (C1 @ C2). finished t dt r r') \<or> (\<exists>r'\<in>set B'. stays t r r')"
    if "r \<in> set A" for r
  proof -
    from a3 [OF that] show ?thesis
    proof
      assume "\<exists>r'\<in>set C1. finished t dt r r'"
      then show ?thesis by auto
    next
      assume "\<exists>r'\<in>set B. stays t r r'"
      then obtain x where x: "x \<in> set B" "stays t r x" by blast
      from b3 [OF x(1)] show ?thesis
      proof
        assume "\<exists>r'\<in>set C2. finished t dt x r'"
        then obtain y where "y \<in> set C2" "finished t dt x y" by blast
        with stays_finished [OF x(2)] show ?thesis by auto
      next
        assume "\<exists>r'\<in>set B'. stays t x r'"
        then obtain y where "y \<in> set B'" "stays t x y" by blast
        with stays_trans [OF x(2)] show ?thesis by auto
      qed
    qed
  qed
  from c1 c2 c3 len show ?thesis
    unfolding step_relates_def by simp
qed

section \<open>The SLA loop\<close>

lemma total_remaining_append [simp]:
  "total_remaining (xs @ ys) = total_remaining xs + total_remaining ys"
  by (simp add: total_remaining_def)

lemma total_remaining_simps [simp]:
  "total_remaining [] = 0"
  "total_remaining (x # xs) = remaining_demand x + total_remaining xs"
  by (simp_all add: total_remaining_def)

lemma serve_current_relates:
  assumes "0 < cap"
    and "sla_serve_current t dt n cap completed = (brk, n1, cap1, completed1)"
  shows "\<exists>done. completed1 = completed @ done
      \<and> step_relates t dt (dynamic_held n) done (dynamic_held n1)
      \<and> total_remaining (dynamic_held n) - total_remaining done
           - total_remaining (dynamic_held n1) = cap - cap1
      \<and> 0 \<le> cap1
      \<and> (\<not> brk \<longrightarrow> current_request n1 = None)
      \<and> dynamic_queue_3 n1 = dynamic_queue_3 n \<and> dynamic_queue_2 n1 = dynamic_queue_2 n
      \<and> dynamic_queue_1 n1 = dynamic_queue_1 n \<and> scheduler n1 = scheduler n"
proof (cases "current_request n")
  case None
  with assms show ?thesis
    by (auto simp add: sla_serve_current_def step_relates_refl)
next
  case (Some cur)
  show ?thesis
  proof (cases "remaining_demand cur \<le> cap")
    case True
    define cur' where "cur' = cur\<lparr>remaining_demand := 0, completion_time := Some (t + dt)\<rparr>"
    have fin: "finished t dt cur cur'"
      by (simp add: finished_def same_identity_def runtime_cleared_def start_kept_def
            cur'_def split: option.splits)
    from assms Some True have res: "brk = False" "cap1 = cap - remaining_demand cur"
      "completed1 = completed @ [cur']"
      "n1 = n\<lparr>completed_history := completed_history n @ [cur'],
               current_request := None, current_request_start_time := None\<rparr>"
      by (simp_all add: sla_serve_current_def Let_def cur'_def)
    have rel: "step_relates t dt (dynamic_held n) [cur'] (dynamic_held n1)"
      using fin unfolding step_relates_def res dynamic_held_def Some
      by (auto intro: stays_refl)
    from rel True show ?thesis
      unfolding res by (simp add: dynamic_held_def Some cur'_def)
  next
    case False
    define cur' where "cur' = cur\<lparr>remaining_demand := remaining_demand cur - cap\<rparr>"
    have st: "stays t cur cur'"
      using False assms(1)
      by (simp add: stays_def progressed_def same_identity_def runtime_cleared_def
            start_kept_def cur'_def split: option.splits)
    from assms Some False have res: "brk = True" "cap1 = 0" "completed1 = completed"
      "n1 = n\<lparr>current_request := Some cur'\<rparr>"
      by (simp_all add: sla_serve_current_def Let_def cur'_def)
    have rel: "step_relates t dt (dynamic_held n) [] (dynamic_held n1)"
      using st unfolding step_relates_def res dynamic_held_def Some
      by (auto intro: stays_refl)
    from rel show ?thesis
      unfolding res by (simp add: dynamic_held_def Some cur'_def)
  qed
qed

lemma select_fold_mem:
  "foldl (select_step n t) best xs = Some (r, s) \<Longrightarrow>
     r \<in> set xs \<or> (\<exists>s'. best = Some (r, s'))"
proof (induction xs arbitrary: best)
  case Nil
  then show ?case by simp
next
  case (Cons x xs)
  from Cons.IH [OF Cons.prems [simplified]]
  show ?case
    by (auto simp add: select_step_def Let_def split: option.splits if_splits prod.splits)
qed

lemma select_mem:
  "select_next_request_sla n t = Some r \<Longrightarrow>
     r \<in> set (dynamic_queue_3 n @ dynamic_queue_2 n @ dynamic_queue_1 n)"
  unfolding select_next_request_sla_def
  by (auto dest: select_fold_mem)

lemma select_none:
  "select_next_request_sla n t = None \<longleftrightarrow>
     dynamic_queue_3 n @ dynamic_queue_2 n @ dynamic_queue_1 n = []"
proof -
  have "foldl (select_step n t) (Some b) xs \<noteq> None" for b xs
    by (induction xs arbitrary: b)
      (auto simp add: select_step_def Let_def split: prod.splits)
  then have "foldl (select_step n t) None xs = None \<longleftrightarrow> xs = []" for xs
    by (cases xs) (auto simp add: select_step_def Let_def)
  from this [of "dynamic_queue_3 n @ dynamic_queue_2 n @ dynamic_queue_1 n"]
  show ?thesis by (simp add: select_next_request_sla_def del: foldl_append)
qed

lemma deque_remove_facts:
  assumes "deque_remove x q = Inr q'"
  shows "x \<in> set q" "set q' \<subseteq> set q" "\<And>y. y \<in> set q \<Longrightarrow> y = x \<or> y \<in> set q'"
    "Suc (length q') = length q" "total_remaining q' + remaining_demand x = total_remaining q"
proof -
  from assms have x: "x \<in> set q" and q': "q' = remove1 x q"
    by (auto simp add: deque_remove_def split: if_splits)
  from x show "x \<in> set q" .
  show "set q' \<subseteq> set q" unfolding q' by (rule set_remove1_subset)
  show "y = x \<or> y \<in> set q'" if "y \<in> set q" for y
    using that unfolding q' by (cases "y = x") simp_all
  from x show "Suc (length q') = length q"
    unfolding q' by (simp add: length_remove1) (metis length_pos_if_in_set Suc_pred)
  from x show "total_remaining q' + remaining_demand x = total_remaining q"
    unfolding q' total_remaining_def by (simp add: sum_list_map_remove1)
qed

lemma take_out_relates:
  assumes "deque_remove x q = Inr q'" and "stays t x x'"
  shows "step_relates t dt (A @ q @ B) [] (A @ q' @ B @ [x'])"
  unfolding step_relates_def
proof (intro conjI ballI)
  fix r' assume "r' \<in> set (A @ q' @ B @ [x'])"
  then consider "r' \<in> set A \<union> set B" | "r' \<in> set q'" | "r' = x'" by auto
  then show "\<exists>r\<in>set (A @ q @ B). stays t r r'"
  proof cases
    case 1
    then show ?thesis by (auto intro: stays_refl)
  next
    case 2
    with deque_remove_facts(2) [OF assms(1)] have "r' \<in> set q" by blast
    then show ?thesis by (auto intro: stays_refl)
  next
    case 3
    with deque_remove_facts(1) [OF assms(1)] assms(2) show ?thesis by auto
  qed
next
  fix r assume "r \<in> set (A @ q @ B)"
  then consider "r \<in> set A \<union> set B" | "r \<in> set q" by auto
  then show "(\<exists>r'\<in>set []. finished t dt r r') \<or> (\<exists>r'\<in>set (A @ q' @ B @ [x']). stays t r r')"
  proof cases
    case 1
    then show ?thesis by (auto intro: stays_refl)
  next
    case 2
    from deque_remove_facts(3) [OF assms(1) 2] assms(2) show ?thesis
      by (auto intro: stays_refl)
  qed
next
  from deque_remove_facts(4) [OF assms(1)]
  show "length (A @ q' @ B @ [x']) + length ([]::Request list) = length (A @ q @ B)" by simp
qed simp

lemma select_started_stays:
  "stays t r (if start_time r = None then r\<lparr>start_time := Some t\<rparr> else r)"
  by (simp add: stays_def same_identity_def runtime_cleared_def start_kept_def
        split: option.splits)

lemma dynamic_remove_relates:
  assumes "dynamic_remove r n = Inr n2" and "current_request n = None"
    and "r' = (if start_time r = None then r\<lparr>start_time := Some t\<rparr> else r)"
    and "n3 = n2\<lparr>current_request := Some r', current_request_start_time := Some t\<rparr>"
  shows "step_relates t dt (dynamic_held n) [] (dynamic_held n3)
    \<and> total_remaining (dynamic_held n3) = total_remaining (dynamic_held n)
    \<and> scheduler n3 = scheduler n"
proof -
  have st: "stays t r r'" unfolding assms(3) by (rule select_started_stays)
  have rem: "remaining_demand r' = remaining_demand r" unfolding assms(3) by simp
  consider (c3) q where "priority_class r = 3" "deque_remove r (dynamic_queue_3 n) = Inr q"
      "n2 = n\<lparr>dynamic_queue_3 := q\<rparr>"
    | (c2) q where "priority_class r \<noteq> 3" "priority_class r = 2"
      "deque_remove r (dynamic_queue_2 n) = Inr q" "n2 = n\<lparr>dynamic_queue_2 := q\<rparr>"
    | (c1) q where "priority_class r \<noteq> 3" "priority_class r \<noteq> 2"
      "deque_remove r (dynamic_queue_1 n) = Inr q" "n2 = n\<lparr>dynamic_queue_1 := q\<rparr>"
    using assms(1) by (auto simp add: dynamic_remove_def split: if_splits sum.splits)
  then show ?thesis
  proof cases
    case c3
    from take_out_relates [OF c3(2) st, of dt "[]" "dynamic_queue_2 n @ dynamic_queue_1 n"]
      deque_remove_facts(5) [OF c3(2)] rem
    show ?thesis
      by (simp add: dynamic_held_def assms(2,4) c3(3))
  next
    case c2
    from take_out_relates [OF c2(3) st, of dt "dynamic_queue_3 n" "dynamic_queue_1 n"]
      deque_remove_facts(5) [OF c2(3)] rem
    show ?thesis
      by (simp add: dynamic_held_def assms(2,4) c2(4))
  next
    case c1
    from take_out_relates [OF c1(3) st, of dt "dynamic_queue_3 n @ dynamic_queue_2 n" "[]"]
      deque_remove_facts(5) [OF c1(3)] rem
    show ?thesis
      by (simp add: dynamic_held_def assms(2,4) c1(4))
  qed
qed

text \<open>One pass through the body of the SLA loop, whether it leaves the loop or not.\<close>

lemma sla_body_relates:
  assumes "0 < cap"
    and "sla_loop_body t dt n cap completed = Inr (n', cap', completed')
         \<or> sla_loop_body t dt n cap completed = Inl (Inr (n', completed'))"
  shows "\<exists>done c. completed' = completed @ done
      \<and> step_relates t dt (dynamic_held n) done (dynamic_held n')
      \<and> total_remaining (dynamic_held n) - total_remaining done
           - total_remaining (dynamic_held n') = cap - c
      \<and> 0 \<le> c
      \<and> (sla_loop_body t dt n cap completed = Inr (n', cap', completed') \<longrightarrow> c = cap')
      \<and> (sla_loop_body t dt n cap completed = Inl (Inr (n', completed')) \<longrightarrow>
            c = 0 \<or> dynamic_held n' = [])
      \<and> scheduler n' = scheduler n"
proof -
  obtain brk n1 cap1 completed1 where
    sc: "sla_serve_current t dt n cap completed = (brk, n1, cap1, completed1)"
    by (cases "sla_serve_current t dt n cap completed") auto
  from serve_current_relates [OF assms(1) sc] obtain done1 where
    d1: "completed1 = completed @ done1"
    and r1: "step_relates t dt (dynamic_held n) done1 (dynamic_held n1)"
    and b1: "total_remaining (dynamic_held n) - total_remaining done1
           - total_remaining (dynamic_held n1) = cap - cap1"
    and c1: "0 \<le> cap1"
    and cur1: "\<not> brk \<longrightarrow> current_request n1 = None"
    and s1: "scheduler n1 = scheduler n"
    by blast
  show ?thesis
  proof (cases brk)
    case True
    with assms(2) sc have res: "n' = n1" "completed' = completed1"
      "sla_loop_body t dt n cap completed \<noteq> Inr (n', cap', completed')"
      by (auto simp add: sla_loop_body_def)
    from True sc assms(1) have "cap1 = 0"
      by (auto simp add: sla_serve_current_def Let_def split: option.splits if_splits)
    with res d1 r1 b1 c1 s1 show ?thesis
      by (intro exI [of _ done1] exI [of _ cap1]) simp
  next
    case False
    with cur1 have cur: "current_request n1 = None" by simp
    show ?thesis
    proof (cases "select_next_request_sla n1 t")
      case None
      with False assms(2) sc have res: "n' = n1" "completed' = completed1"
        "sla_loop_body t dt n cap completed \<noteq> Inr (n', cap', completed')"
        by (auto simp add: sla_loop_body_def)
      from None cur have "dynamic_held n1 = []"
        by (simp add: select_none dynamic_held_def)
      with res d1 r1 b1 c1 s1 show ?thesis
        by (intro exI [of _ done1] exI [of _ cap1]) simp
    next
      case (Some next_req)
      define next_req' where
        "next_req' = (if start_time next_req = None then next_req\<lparr>start_time := Some t\<rparr>
                      else next_req)"
      from False Some assms(2) sc obtain n2 where
        rm: "dynamic_remove next_req n1 = Inr n2"
        and res: "n' = n2\<lparr>current_request := Some next_req',
                           current_request_start_time := Some t\<rparr>"
          "cap' = cap1" "completed' = completed1"
          "sla_loop_body t dt n cap completed = Inr (n', cap', completed')"
        by (auto simp add: sla_loop_body_def Let_def next_req'_def split: sum.splits)
      from dynamic_remove_relates [OF rm cur next_req'_def res(1), of dt]
      have r2: "step_relates t dt (dynamic_held n1) [] (dynamic_held n')"
        and b2: "total_remaining (dynamic_held n') = total_remaining (dynamic_held n1)"
        and s2: "scheduler n' = scheduler n1" by simp_all
      from step_relates_trans [OF r1 r2]
      have "step_relates t dt (dynamic_held n) done1 (dynamic_held n')" by simp
      with d1 b1 b2 c1 s1 s2 res show ?thesis
        by (intro exI [of _ done1] exI [of _ cap1]) simp
    qed
  qed
qed

lemma sla_loop_relates:
  "sla_loop t dt n cap completed = Inr (n', completed') \<Longrightarrow>
     \<exists>new c. completed' = completed @ new
       \<and> step_relates t dt (dynamic_held n) new (dynamic_held n')
       \<and> total_remaining (dynamic_held n) - total_remaining new
            - total_remaining (dynamic_held n') = cap - c
       \<and> (0 \<le> cap \<longrightarrow> 0 \<le> c) \<and> (cap \<le> 0 \<longrightarrow> c = cap)
       \<and> (0 < cap \<and> 0 < c \<longrightarrow> dynamic_held n' = [])
       \<and> scheduler n' = scheduler n"
proof (induction t dt n cap completed arbitrary: n' completed' rule: sla_loop.induct)
  case (1 t dt n cap completed)
  show ?case
  proof (cases "0 < cap")
    case False
    with "1.prems" have "n' = n" "completed' = completed"
      by (simp_all add: sla_loop.simps [of t dt n cap completed])
    with False show ?thesis
      by (intro exI [of _ "[]"] exI [of _ cap]) (simp add: step_relates_refl)
  next
    case pos: True
    show ?thesis
    proof (cases "sla_loop_body t dt n cap completed")
      case (Inl result)
      with pos "1.prems" have lv: "sla_loop_body t dt n cap completed = Inl (Inr (n', completed'))"
        by (simp add: sla_loop.simps [of t dt n cap completed])
      from sla_body_relates [OF pos disjI2, OF lv] lv obtain done1 c where
        "completed' = completed @ done1"
        "step_relates t dt (dynamic_held n) done1 (dynamic_held n')"
        "total_remaining (dynamic_held n) - total_remaining done1
             - total_remaining (dynamic_held n') = cap - c"
        "0 \<le> c" "c = 0 \<or> dynamic_held n' = []" "scheduler n' = scheduler n"
        by blast
      with pos show ?thesis
        by (intro exI [of _ done1] exI [of _ c]) auto
    next
      case (Inr st)
      obtain n1 cap1 completed1 where st: "st = (n1, cap1, completed1)" by (cases st) auto
      from Inr st have body: "sla_loop_body t dt n cap completed = Inr (n1, cap1, completed1)"
        by simp
      from pos body "1.prems" have rec: "sla_loop t dt n1 cap1 completed1 = Inr (n', completed')"
        by (simp add: sla_loop.simps [of t dt n cap completed])
      from sla_body_relates [OF pos disjI1, OF body] obtain done1 where
        d1: "completed1 = completed @ done1"
        and r1: "step_relates t dt (dynamic_held n) done1 (dynamic_held n1)"
        and b1: "total_remaining (dynamic_held n) - total_remaining done1
             - total_remaining (dynamic_held n1) = cap - cap1"
        and c1: "0 \<le> cap1" and s1: "scheduler n1 = scheduler n"
        using body by auto
      from "1.IH" [OF pos body refl refl rec] obtain new c where
        d2: "completed' = completed1 @ new"
        and r2: "step_relates t dt (dynamic_held n1) new (dynamic_held n')"
        and b2: "total_remaining (dynamic_held n1) - total_remaining new
               - total_remaining (dynamic_held n') = cap1 - c"
        and c2: "0 \<le> cap1 \<longrightarrow> 0 \<le> c" "cap1 \<le> 0 \<longrightarrow> c = cap1"
          "0 < cap1 \<and> 0 < c \<longrightarrow> dynamic_held n' = []"
        and s2: "scheduler n' = scheduler n1" by blast
      have rel: "step_relates t dt (dynamic_held n) (done1 @ new) (dynamic_held n')"
        using step_relates_trans [OF r1 r2] .
      have bud: "total_remaining (dynamic_held n) - total_remaining (done1 @ new)
          - total_remaining (dynamic_held n') = cap - c"
        using b1 b2 by simp
      have nonneg: "0 \<le> c" using c1 c2(1) by simp
      have empty: "dynamic_held n' = []" if "0 < c"
      proof (cases "0 < cap1")
        case True
        with that c2(3) show ?thesis by simp
      next
        case False
        with c2(2) c1 that show ?thesis by simp
      qed
      from rel bud nonneg empty d1 d2 s1 s2 pos show ?thesis
        by (intro exI [of _ "done1 @ new"] exI [of _ c]) auto
    qed
  qed
qed

lemma select_view:
  assumes "dispatch_view n = dispatch_view m"
  shows "select_next_request_sla n t = select_next_request_sla m t"
proof -
  from assms have "priority_score n = priority_score m"
    by (intro ext) (simp add: priority_score_def dispatch_view_def)
  then have "select_step n t = select_step m t"
    by (intro ext) (simp add: select_step_def)
  with assms show ?thesis
    by (simp add: select_next_request_sla_def dispatch_view_def)
qed

lemma remove_view_Inr:
  assumes "dispatch_view n = dispatch_view m" and "dynamic_remove r n = Inr n2"
  shows "\<exists>m2. dynamic_remove r m = Inr m2 \<and> dispatch_view n2 = dispatch_view m2"
  using assms
  by (auto simp add: dynamic_remove_def dispatch_view_def split: if_splits sum.splits)

lemma remove_view_Inl:
  assumes "dispatch_view n = dispatch_view m" and "dynamic_remove r n = Inl e"
  shows "dynamic_remove r m = Inl e"
  using assms
  by (auto simp add: dynamic_remove_def dispatch_view_def deque_remove_def
        split: if_splits sum.splits)

lemma dispatch_order_view:
  "dispatch_view n = dispatch_view m \<Longrightarrow> dispatch_order n t = dispatch_order m t"
proof (induction n t arbitrary: m rule: dispatch_order.induct)
  case (1 n t)
  note v = "1.prems"
  show ?case
  proof (cases "select_next_request_sla n t")
    case None
    with select_view [OF v, of t] show ?thesis
      by (simp add: dispatch_order.simps [of n t] dispatch_order.simps [of m t])
  next
    case (Some r)
    with select_view [OF v, of t] have sm: "select_next_request_sla m t = Some r" by simp
    show ?thesis
    proof (cases "dynamic_remove r n")
      case (Inl e)
      from remove_view_Inl [OF v Inl] Inl Some sm show ?thesis
        by (simp add: dispatch_order.simps [of n t] dispatch_order.simps [of m t])
    next
      case (Inr n2)
      from remove_view_Inr [OF v Inr] obtain m2 where
        m2: "dynamic_remove r m = Inr m2" and v2: "dispatch_view n2 = dispatch_view m2"
        by blast
      from "1.IH" [OF Some Inr v2] Some sm Inr m2 show ?thesis
        by (simp add: dispatch_order.simps [of n t] dispatch_order.simps [of m t])
    qed
  qed
qed

lemma dispatched_view:
  "dispatch_view n = dispatch_view m \<Longrightarrow>
     dispatch_view (dispatched j n t) = dispatch_view (dispatched j m t)"
proof (induction j arbitrary: n m)
  case 0
  then show ?case by simp
next
  case (Suc j)
  note v = Suc.prems
  show ?case
  proof (cases "select_next_request_sla n t")
    case None
    with select_view [OF v, of t] v show ?thesis by simp
  next
    case (Some r)
    with select_view [OF v, of t] have sm: "select_next_request_sla m t = Some r" by simp
    show ?thesis
    proof (cases "dynamic_remove r n")
      case (Inl e)
      from remove_view_Inl [OF v Inl] Inl Some sm v show ?thesis by simp
    next
      case (Inr n2)
      from remove_view_Inr [OF v Inr] obtain m2 where
        m2: "dynamic_remove r m = Inr m2" and v2: "dispatch_view n2 = dispatch_view m2"
        by blast
      from Suc.IH [OF v2] Some sm Inr m2 show ?thesis by simp
    qed
  qed
qed

lemma view_queues:
  assumes "dispatch_view n = dispatch_view m"
  shows "dynamic_queue_3 n = dynamic_queue_3 m" and "dynamic_queue_2 n = dynamic_queue_2 m"
    and "dynamic_queue_1 n = dynamic_queue_1 m"
  using assms by (simp_all add: dispatch_view_def)

lemma line_outcome_Nil: "line_outcome t dt cap [] [] None"
  by (simp add: line_outcome_def)

lemma reduce_request_0 [simp]: "reduce_request 0 r = r"
  by (simp add: reduce_request_def)

lemma line_outcome_stop:
  assumes "cap = 0 \<or> 0 < cap \<and> cap < remaining_demand x"
  shows "line_outcome t dt cap (x # line) [] (Some (reduce_request cap x))"
  using assms by (auto simp add: line_outcome_def)

lemma line_outcome_Cons:
  assumes "line_outcome t dt (cap - remaining_demand x) line c cur'"
    and "0 < cap" and "remaining_demand x \<le> cap"
  shows "line_outcome t dt cap (x # line) (finish_request t dt x # c) cur'"
proof -
  from assms(1) have len: "length c \<le> length line"
    and c: "c = map (finish_request t dt) (take (length c) line)"
    and fits: "\<And>i. i < length c \<Longrightarrow>
        0 < budget_left (cap - remaining_demand x) line i
        \<and> remaining_demand (line ! i) \<le> budget_left (cap - remaining_demand x) line i"
    and tail: "if length c = length line then cur' = None
      else (budget_left (cap - remaining_demand x) line (length c) = 0
            \<or> 0 < budget_left (cap - remaining_demand x) line (length c)
               \<and> budget_left (cap - remaining_demand x) line (length c)
                   < remaining_demand (line ! length c))
           \<and> cur' = Some (reduce_request (budget_left (cap - remaining_demand x) line (length c))
                           (line ! length c))"
    unfolding line_outcome_def Let_def by blast+
  have all: "\<forall>i < Suc (length c). 0 < budget_left cap (x # line) i
      \<and> remaining_demand ((x # line) ! i) \<le> budget_left cap (x # line) i"
  proof (intro allI impI)
    fix i assume i: "i < Suc (length c)"
    show "0 < budget_left cap (x # line) i
      \<and> remaining_demand ((x # line) ! i) \<le> budget_left cap (x # line) i"
    proof (cases i)
      case 0
      with assms(2,3) show ?thesis by simp
    next
      case (Suc j)
      with i fits [of j] show ?thesis by simp
    qed
  qed
  have c': "finish_request t dt x # c
      = map (finish_request t dt) (take (Suc (length c)) (x # line))"
    using c by simp
  show ?thesis
    unfolding line_outcome_def Let_def
  proof (intro conjI)
    show "length (finish_request t dt x # c) \<le> length (x # line)"
      using len by simp
    show "finish_request t dt x # c
      = map (finish_request t dt) (take (length (finish_request t dt x # c)) (x # line))"
      using c' by simp
    show "\<forall>i<length (finish_request t dt x # c).
      0 < budget_left cap (x # line) i
      \<and> remaining_demand ((x # line) ! i) \<le> budget_left cap (x # line) i"
      using all by simp
    show "if length (finish_request t dt x # c) = length (x # line) then cur' = None
      else (budget_left cap (x # line) (length (finish_request t dt x # c)) = 0
            \<or> 0 < budget_left cap (x # line) (length (finish_request t dt x # c))
               \<and> budget_left cap (x # line) (length (finish_request t dt x # c))
                   < remaining_demand ((x # line) ! length (finish_request t dt x # c)))
           \<and> cur' = Some (reduce_request
                            (budget_left cap (x # line) (length (finish_request t dt x # c)))
                            ((x # line) ! length (finish_request t dt x # c)))"
      using tail by simp
  qed
qed

lemma remove_frame:
  assumes "dynamic_remove r n = Inr n2"
  shows "completed_history n2 = completed_history n" and "current_request n2 = current_request n"
    and "alpha n2 = alpha n" and "beta n2 = beta n" and "gamma n2 = gamma n"
  using assms
  by (auto simp add: dynamic_remove_def split: if_splits sum.splits)

text \<open>One pass through the body of the SLA loop, by the cases of the source.\<close>

lemma sla_body_none:
  assumes "current_request n = None"
  shows "sla_loop_body t dt n cap completed =
     (case select_next_request_sla n t of
        None \<Rightarrow> Inl (Inr (n, completed))
      | Some r \<Rightarrow>
          (case dynamic_remove r n of
             Inl e \<Rightarrow> Inl (Inl e)
           | Inr n2 \<Rightarrow>
               Inr (n2\<lparr>current_request := Some (started t r),
                       current_request_start_time := Some t\<rparr>, cap, completed)))"
  using assms
  by (simp add: sla_loop_body_def sla_serve_current_def started_def Let_def
        split: option.splits sum.splits)

lemma sla_body_partial:
  assumes "current_request n = Some cur" and "\<not> remaining_demand cur \<le> cap"
  shows "sla_loop_body t dt n cap completed =
     Inl (Inr (n\<lparr>current_request := Some (reduce_request cap cur)\<rparr>, completed))"
  using assms
  by (simp add: sla_loop_body_def sla_serve_current_def reduce_request_def Let_def)

lemma sla_body_finish:
  assumes "current_request n = Some cur" and "remaining_demand cur \<le> cap"
  shows "sla_loop_body t dt n cap completed =
     (let n1 = n\<lparr>completed_history := completed_history n @ [finish_request t dt cur],
                 current_request := None, current_request_start_time := None\<rparr>
      in case select_next_request_sla n1 t of
        None \<Rightarrow> Inl (Inr (n1, completed @ [finish_request t dt cur]))
      | Some r \<Rightarrow>
          (case dynamic_remove r n1 of
             Inl e \<Rightarrow> Inl (Inl e)
           | Inr n2 \<Rightarrow>
               Inr (n2\<lparr>current_request := Some (started t r),
                       current_request_start_time := Some t\<rparr>,
                    cap - remaining_demand cur, completed @ [finish_request t dt cur])))"
  using assms
  by (simp add: sla_loop_body_def sla_serve_current_def started_def finish_request_def Let_def
        split: option.splits sum.splits)

lemma service_line_current:
  "current_request n = Some cur \<Longrightarrow>
     service_line n t = cur # map (started t) (dispatch_order n t)"
  "current_request n = Some cur \<Longrightarrow> length (in_service n) = 1"
  "current_request n = None \<Longrightarrow> service_line n t = map (started t) (dispatch_order n t)"
  "current_request n = None \<Longrightarrow> length (in_service n) = 0"
  by (simp_all add: service_line_def in_service_def)

lemma line_served_zero:
  assumes "current_request n = Some cur"
  shows "line_served t dt 0 n n []"
proof -
  have "line_outcome t dt 0 (cur # map (started t) (dispatch_order n t)) []
          (Some (reduce_request 0 cur))"
    by (rule line_outcome_stop) simp
  with assms show ?thesis
    by (simp add: line_served_def service_line_current)
qed

lemma line_served_partial:
  assumes "current_request n = Some cur" and "0 < cap" and "\<not> remaining_demand cur \<le> cap"
  shows "line_served t dt cap n (n\<lparr>current_request := Some (reduce_request cap cur)\<rparr>) []"
proof -
  from assms(2,3) have "line_outcome t dt cap (cur # map (started t) (dispatch_order n t)) []
          (Some (reduce_request cap cur))"
    by (intro line_outcome_stop) simp
  with assms(1) show ?thesis
    by (simp add: line_served_def service_line_current)
qed

lemma line_served_idle:
  assumes "current_request n = None" and "select_next_request_sla n t = None"
  shows "line_served t dt cap n n []"
proof -
  from assms(2) have "dispatch_order n t = []"
    by (simp add: dispatch_order.simps [of n t])
  with assms show ?thesis
    by (simp add: line_served_def service_line_current line_outcome_Nil)
qed

lemma line_served_last:
  assumes cur: "current_request n = Some cur" and pos: "0 < cap"
    and fit: "remaining_demand cur \<le> cap"
    and n1: "n1 = n\<lparr>completed_history := completed_history n @ [finish_request t dt cur],
                     current_request := None, current_request_start_time := None\<rparr>"
    and sel: "select_next_request_sla n1 t = None"
  shows "line_served t dt cap n n1 [finish_request t dt cur]"
proof -
  have v: "dispatch_view n1 = dispatch_view n"
    by (simp add: n1 dispatch_view_def)
  from select_view [OF v, of t] sel have seln: "select_next_request_sla n t = None" by simp
  then have ord: "dispatch_order n t = []"
    by (simp add: dispatch_order.simps [of n t])
  have out: "line_outcome t dt cap [cur] [finish_request t dt cur] None"
    by (rule line_outcome_Cons [OF line_outcome_Nil pos fit])
  from seln have d: "dispatched (Suc 0) n t = n" by simp
  from out cur ord d show ?thesis
    by (simp add: line_served_def service_line_current n1)
qed

lemma line_served_dispatch:
  assumes cur: "current_request n = None"
    and sel: "select_next_request_sla n t = Some r" and rm: "dynamic_remove r n = Inr n2"
    and n3: "n3 = n2\<lparr>current_request := Some (started t r),
                      current_request_start_time := Some t\<rparr>"
    and ih: "line_served t dt cap n3 n' c"
  shows "line_served t dt cap n n' c"
proof -
  have v: "dispatch_view n3 = dispatch_view n2"
    by (simp add: n3 dispatch_view_def)
  have cur3: "current_request n3 = Some (started t r)" by (simp add: n3)
  from sel rm have ord: "dispatch_order n t = r # dispatch_order n2 t"
    by (simp add: dispatch_order.simps [of n t])
  have line: "service_line n t = service_line n3 t"
    by (simp add: service_line_current(3) [OF cur] service_line_current(1) [OF cur3] ord
          dispatch_order_view [OF v])
  from sel rm have d: "dispatched (Suc (length c)) n t = dispatched (length c) n2 t" by simp
  from dispatched_view [OF v, of "length c" t]
  have dv: "dispatch_view (dispatched (length c) n3 t) = dispatch_view (dispatched (length c) n2 t)" .
  have hist: "completed_history n3 = completed_history n"
    by (simp add: n3 remove_frame(1) [OF rm])
  from ih show ?thesis
    unfolding line_served_def line service_line_current(4) [OF cur]
      service_line_current(2) [OF cur3] hist
    by (simp add: d view_queues [OF dv] del: dispatched.simps)
qed

lemma line_served_finish:
  assumes cur: "current_request n = Some cur" and pos: "0 < cap"
    and fit: "remaining_demand cur \<le> cap"
    and n1: "n1 = n\<lparr>completed_history := completed_history n @ [finish_request t dt cur],
                     current_request := None, current_request_start_time := None\<rparr>"
    and sel: "select_next_request_sla n1 t = Some r" and rm: "dynamic_remove r n1 = Inr n2"
    and n3: "n3 = n2\<lparr>current_request := Some (started t r),
                      current_request_start_time := Some t\<rparr>"
    and ih: "line_served t dt (cap - remaining_demand cur) n3 n' c"
  shows "line_served t dt cap n n' (finish_request t dt cur # c)"
proof -
  have v1: "dispatch_view n1 = dispatch_view n"
    by (simp add: n1 dispatch_view_def)
  from select_view [OF v1, of t] sel have seln: "select_next_request_sla n t = Some r" by simp
  from remove_view_Inr [OF v1 rm] obtain m2 where
    rmn: "dynamic_remove r n = Inr m2" and v2: "dispatch_view n2 = dispatch_view m2" by blast
  have v3: "dispatch_view n3 = dispatch_view m2"
    using v2 by (simp add: n3 dispatch_view_def)
  have cur3: "current_request n3 = Some (started t r)" by (simp add: n3)
  from seln rmn have ord: "dispatch_order n t = r # dispatch_order m2 t"
    by (simp add: dispatch_order.simps [of n t])
  have line: "service_line n t = cur # service_line n3 t"
    by (simp add: service_line_current(1) [OF cur] service_line_current(1) [OF cur3] ord
          dispatch_order_view [OF v3])
  from seln rmn have d: "dispatched (Suc (length c)) n t = dispatched (length c) m2 t" by simp
  from dispatched_view [OF v3, of "length c" t]
  have dv: "dispatch_view (dispatched (length c) n3 t) = dispatch_view (dispatched (length c) m2 t)" .
  have hist: "completed_history n3 = completed_history n @ [finish_request t dt cur]"
    by (simp add: n3 remove_frame(1) [OF rm] n1)
  from ih have out: "line_outcome t dt (cap - remaining_demand cur) (service_line n3 t) c
        (current_request n')"
    and q: "dynamic_queue_3 n' = dynamic_queue_3 (dispatched (length c) n3 t)"
      "dynamic_queue_2 n' = dynamic_queue_2 (dispatched (length c) n3 t)"
      "dynamic_queue_1 n' = dynamic_queue_1 (dispatched (length c) n3 t)"
    and h: "completed_history n' = completed_history n3 @ c"
    unfolding line_served_def service_line_current(2) [OF cur3] by simp_all
  from line_outcome_Cons [OF out pos fit]
  have out': "line_outcome t dt cap (service_line n t) (finish_request t dt cur # c)
        (current_request n')"
    unfolding line .
  from out' q h show ?thesis
    unfolding line_served_def service_line_current(2) [OF cur] hist
    by (simp add: d view_queues [OF dv] del: dispatched.simps)
qed

lemma sla_loop_exact:
  "sla_loop t dt n cap completed = Inr (n', completed') \<Longrightarrow> 0 \<le> cap \<Longrightarrow>
     0 < cap \<or> current_request n \<noteq> None \<Longrightarrow>
     \<exists>c. completed' = completed @ c \<and> line_served t dt cap n n' c"
proof (induction t dt n cap completed arbitrary: n' completed' rule: sla_loop.induct)
  case (1 t dt n cap completed)
  note loop = "1.prems"(1) and nonneg = "1.prems"(2) and live = "1.prems"(3)
  show ?case
  proof (cases "0 < cap")
    case False
    with nonneg have cap0: "cap = 0" by simp
    from False live obtain cur where cur: "current_request n = Some cur" by auto
    from False loop have res: "n' = n" "completed' = completed"
      by (simp_all add: sla_loop.simps [of t dt n cap completed])
    from line_served_zero [OF cur, of t dt] show ?thesis
      unfolding res cap0 by (intro exI [of _ "[]"]) simp
  next
    case pos: True
    note unfold = sla_loop.simps [of t dt n cap completed]
    show ?thesis
    proof (cases "current_request n")
      case None
      note body = sla_body_none [OF None, of t dt cap completed]
      show ?thesis
      proof (cases "select_next_request_sla n t")
        case sel: None
        with pos loop body have res: "n' = n" "completed' = completed"
          by (simp_all add: unfold)
        from line_served_idle [OF None sel, of dt cap] show ?thesis
          unfolding res by (intro exI [of _ "[]"]) simp
      next
        case sel: (Some r)
        show ?thesis
        proof (cases "dynamic_remove r n")
          case (Inl e)
          with pos loop body sel show ?thesis by (simp add: unfold)
        next
          case (Inr n2)
          define n3 where "n3 = n2\<lparr>current_request := Some (started t r),
                                   current_request_start_time := Some t\<rparr>"
          from body sel Inr have b: "sla_loop_body t dt n cap completed = Inr (n3, cap, completed)"
            by (simp add: n3_def)
          from pos loop b have rec: "sla_loop t dt n3 cap completed = Inr (n', completed')"
            by (simp add: unfold)
          have live3: "0 < cap \<or> current_request n3 \<noteq> None" by (simp add: n3_def)
          from "1.IH" [OF pos b refl refl rec nonneg live3] obtain c where
            c: "completed' = completed @ c" and ih: "line_served t dt cap n3 n' c" by blast
          from line_served_dispatch [OF None sel Inr n3_def ih] c show ?thesis by blast
        qed
      qed
    next
      case (Some cur)
      show ?thesis
      proof (cases "remaining_demand cur \<le> cap")
        case False
        from pos loop sla_body_partial [OF Some False, of t dt completed]
        have res: "n' = n\<lparr>current_request := Some (reduce_request cap cur)\<rparr>"
          "completed' = completed"
          by (simp_all add: unfold)
        from line_served_partial [OF Some pos False, of t dt] show ?thesis
          unfolding res by (intro exI [of _ "[]"]) simp
      next
        case fit: True
        define n1 where "n1 = n\<lparr>completed_history := completed_history n @ [finish_request t dt cur],
                     current_request := None, current_request_start_time := None\<rparr>"
        note body = sla_body_finish [OF Some fit, of t dt completed, unfolded Let_def,
            folded n1_def]
        show ?thesis
        proof (cases "select_next_request_sla n1 t")
          case sel: None
          with pos loop body have res: "n' = n1"
            "completed' = completed @ [finish_request t dt cur]"
            by (simp_all add: unfold)
          from line_served_last [OF Some pos fit n1_def sel] show ?thesis
            unfolding res by (intro exI [of _ "[finish_request t dt cur]"]) simp
        next
          case sel: (Some r)
          show ?thesis
          proof (cases "dynamic_remove r n1")
            case (Inl e)
            with pos loop body sel show ?thesis by (simp add: unfold)
          next
            case (Inr n2)
            define n3 where "n3 = n2\<lparr>current_request := Some (started t r),
                                     current_request_start_time := Some t\<rparr>"
            from body sel Inr have b: "sla_loop_body t dt n cap completed
                = Inr (n3, cap - remaining_demand cur, completed @ [finish_request t dt cur])"
              by (simp add: n3_def)
            from pos loop b have rec: "sla_loop t dt n3 (cap - remaining_demand cur)
                (completed @ [finish_request t dt cur]) = Inr (n', completed')"
              by (simp add: unfold)
            from fit have nonneg1: "0 \<le> cap - remaining_demand cur" by simp
            have live3: "0 < cap - remaining_demand cur \<or> current_request n3 \<noteq> None"
              by (simp add: n3_def)
            from "1.IH" [OF pos b refl refl rec nonneg1 live3] obtain c where
              c: "completed' = (completed @ [finish_request t dt cur]) @ c"
              and ih: "line_served t dt (cap - remaining_demand cur) n3 n' c" by blast
            from line_served_finish [OF Some pos fit n1_def sel Inr n3_def ih] c
            show ?thesis
              by (intro exI [of _ "finish_request t dt cur # c"]) simp
          qed
        qed
      qed
    qed
  qed
qed

section \<open>One step of a node\<close>

lemma list_all2_right: "list_all2 P xs ys \<Longrightarrow> y \<in> set ys \<Longrightarrow> \<exists>x\<in>set xs. P x y"
  by (induction rule: list_all2_induct) auto

lemma list_all2_left: "list_all2 P xs ys \<Longrightarrow> x \<in> set xs \<Longrightarrow> \<exists>y\<in>set ys. P x y"
  by (induction rule: list_all2_induct) auto

lemma completes_finished: "completes t dt r r' \<Longrightarrow> finished t dt r r'"
  by (simp add: completes_def)

lemma waits_or_served_stays: "waits_or_served t r r' \<Longrightarrow> stays t r r'"
  by (auto simp add: waits_or_served_def partly_served_def stays_def intro: stays_refl
        same_identity_refl start_kept_refl)

lemma pq_relates:
  assumes "process_queue t dt cap q = (q', c, cap')"
  shows "step_relates t dt q c q'"
proof -
  from pq_rel [OF assms] have
    a: "list_all2 (completes t dt) (take (length c) q) c"
    and b: "list_all2 (waits_or_served t) (drop (length c) q) q'" by simp_all
  have q: "set q = set (take (length c) q) \<union> set (drop (length c) q)"
    by (metis append_take_drop_id set_append)
  show ?thesis
    unfolding step_relates_def
  proof (intro conjI ballI)
    fix r' assume "r' \<in> set c"
    from list_all2_right [OF a this] q show "\<exists>r\<in>set q. finished t dt r r'"
      by (auto dest: completes_finished)
  next
    fix r' assume "r' \<in> set q'"
    from list_all2_right [OF b this] q show "\<exists>r\<in>set q. stays t r r'"
      by (auto dest: waits_or_served_stays)
  next
    fix r assume "r \<in> set q"
    with q consider "r \<in> set (take (length c) q)" | "r \<in> set (drop (length c) q)" by auto
    then show "(\<exists>r'\<in>set c. finished t dt r r') \<or> (\<exists>r'\<in>set q'. stays t r r')"
    proof cases
      case 1
      from list_all2_left [OF a 1] show ?thesis by (auto dest: completes_finished)
    next
      case 2
      from list_all2_left [OF b 2] show ?thesis by (auto dest: waits_or_served_stays)
    qed
  next
    from pq_length [OF assms] show "length q' + length c = length q" .
  qed
qed

lemma step_relates_append:
  assumes "step_relates t dt A1 C1 B1" and "step_relates t dt A2 C2 B2"
  shows "step_relates t dt (A1 @ A2) (C1 @ C2) (B1 @ B2)"
proof -
  from assms have
    a1: "\<And>r'. r' \<in> set C1 \<Longrightarrow> \<exists>r\<in>set A1. finished t dt r r'" and
    a2: "\<And>r'. r' \<in> set B1 \<Longrightarrow> \<exists>r\<in>set A1. stays t r r'" and
    a3: "\<And>r. r \<in> set A1 \<Longrightarrow>
           (\<exists>r'\<in>set C1. finished t dt r r') \<or> (\<exists>r'\<in>set B1. stays t r r')" and
    b1: "\<And>r'. r' \<in> set C2 \<Longrightarrow> \<exists>r\<in>set A2. finished t dt r r'" and
    b2: "\<And>r'. r' \<in> set B2 \<Longrightarrow> \<exists>r\<in>set A2. stays t r r'" and
    b3: "\<And>r. r \<in> set A2 \<Longrightarrow>
           (\<exists>r'\<in>set C2. finished t dt r r') \<or> (\<exists>r'\<in>set B2. stays t r r')" and
    len: "length B1 + length C1 = length A1" "length B2 + length C2 = length A2"
    unfolding step_relates_def by simp_all
  show ?thesis
    unfolding step_relates_def
  proof (intro conjI ballI)
    fix r' assume "r' \<in> set (C1 @ C2)"
    then consider "r' \<in> set C1" | "r' \<in> set C2" by auto
    then show "\<exists>r\<in>set (A1 @ A2). finished t dt r r'"
    proof cases
      case 1 from a1 [OF 1] show ?thesis by auto
    next
      case 2 from b1 [OF 2] show ?thesis by auto
    qed
  next
    fix r' assume "r' \<in> set (B1 @ B2)"
    then consider "r' \<in> set B1" | "r' \<in> set B2" by auto
    then show "\<exists>r\<in>set (A1 @ A2). stays t r r'"
    proof cases
      case 1 from a2 [OF 1] show ?thesis by auto
    next
      case 2 from b2 [OF 2] show ?thesis by auto
    qed
  next
    fix r assume "r \<in> set (A1 @ A2)"
    then consider "r \<in> set A1" | "r \<in> set A2" by auto
    then show "(\<exists>r'\<in>set (C1 @ C2). finished t dt r r')
        \<or> (\<exists>r'\<in>set (B1 @ B2). stays t r r')"
    proof cases
      case 1 from a3 [OF 1] show ?thesis by auto
    next
      case 2 from b3 [OF 2] show ?thesis by auto
    qed
  next
    from len show "length (B1 @ B2) + length (C1 @ C2) = length (A1 @ A2)" by simp
  qed
qed

lemma update_frame:
  assumes "update_sla_weights_window n t = Inr n'"
  shows "dynamic_held n' = dynamic_held n \<and> scheduler n' = scheduler n
    \<and> cpu_capacity n' = cpu_capacity n \<and> completed_history n' = completed_history n"
  using assms
  by (auto simp add: update_sla_weights_window_def Let_def dynamic_held_def split: if_splits)

lemma window_boundary_frame:
  assumes "sla_window_boundary n t = Inr n'"
  shows "dynamic_held n' = dynamic_held n" and "scheduler n' = scheduler n"
    and "cpu_capacity n' = cpu_capacity n" and "completed_history n' = completed_history n"
proof -
  have "dynamic_held n' = dynamic_held n \<and> scheduler n' = scheduler n
    \<and> cpu_capacity n' = cpu_capacity n \<and> completed_history n' = completed_history n"
  proof (cases "t - last_window_update n \<ge> getattr (sla_window_TW n) 10")
    case True
    with assms obtain n0 where u: "update_sla_weights_window n t = Inr n0"
      and n': "n' = n0\<lparr>last_window_update := t\<rparr>"
      by (auto simp add: sla_window_boundary_def Let_def split: sum.splits)
    from update_frame [OF u] show ?thesis by (simp add: n' dynamic_held_def)
  next
    case False
    with assms show ?thesis by (simp add: sla_window_boundary_def Let_def)
  qed
  then show "dynamic_held n' = dynamic_held n" and "scheduler n' = scheduler n"
    and "cpu_capacity n' = cpu_capacity n" and "completed_history n' = completed_history n"
    by simp_all
qed

lemma held_sla: "is_sla (scheduler n) \<Longrightarrow> held n = dynamic_held n"
  by (simp add: held_def dynamic_held_def)

lemma pq_budget_all:
  assumes "process_queue t dt cap q = (q', c, cap')"
  shows "total_remaining q - total_remaining c - total_remaining q' = cap - cap'"
    and "0 \<le> cap \<Longrightarrow> 0 \<le> cap'" and "cap \<le> 0 \<Longrightarrow> cap' = cap \<and> q' = q \<and> c = []"
    and "0 < cap' \<Longrightarrow> q' = []"
proof -
  show "total_remaining q - total_remaining c - total_remaining q' = cap - cap'"
    by (rule pq_budget [OF assms])
  show "0 \<le> cap \<Longrightarrow> 0 \<le> cap'" by (rule pq_cap_nonneg [OF assms])
  show "cap \<le> 0 \<Longrightarrow> cap' = cap \<and> q' = q \<and> c = []"
    using assms by (simp add: pq_nonpos)
  show "0 < cap' \<Longrightarrow> q' = []" using pq_leftover [OF assms] by fastforce
qed

lemma process_one_step_relates:
  assumes "process_one_step n t dt = Inr (n', completed)"
  shows "step_relates t dt (held n) completed (held n')
    \<and> scheduler n' = scheduler n
    \<and> (\<exists>c. total_remaining (held n) - total_remaining completed - total_remaining (held n')
             = cpu_capacity n * dt - c
          \<and> (0 \<le> cpu_capacity n * dt \<longrightarrow> 0 \<le> c)
          \<and> (cpu_capacity n * dt \<le> 0 \<longrightarrow> c = cpu_capacity n * dt)
          \<and> (0 < cpu_capacity n * dt \<and> 0 < c \<longrightarrow> held n' = []))"
proof -
  define cap where "cap = cpu_capacity n * dt"
  consider (sla) "is_sla (scheduler n)"
    | (static) "\<not> is_sla (scheduler n)" "scheduler n = ''STATIC_PRIORITY''"
    | (emergency) "\<not> is_sla (scheduler n)" "scheduler n \<noteq> ''STATIC_PRIORITY''"
        "scheduler n = ''EMERGENCY_FIRST''"
    | (fifo) "\<not> is_sla (scheduler n)" "scheduler n \<noteq> ''STATIC_PRIORITY''"
        "scheduler n \<noteq> ''EMERGENCY_FIRST''"
    by blast
  then show ?thesis
  proof cases
    case sla
    from assms sla obtain n1 where
      loop: "sla_loop t dt n cap [] = Inr (n1, completed)"
      and wb: "sla_window_boundary n1 t = Inr n'"
      by (auto simp add: process_one_step_def Let_def cap_def split: sum.splits)
    from sla_loop_relates [OF loop] obtain c where
      r: "step_relates t dt (dynamic_held n) completed (dynamic_held n1)"
      and b: "total_remaining (dynamic_held n) - total_remaining completed
            - total_remaining (dynamic_held n1) = cap - c"
        "0 \<le> cap \<longrightarrow> 0 \<le> c" "cap \<le> 0 \<longrightarrow> c = cap"
        "0 < cap \<and> 0 < c \<longrightarrow> dynamic_held n1 = []"
      and s: "scheduler n1 = scheduler n"
      by auto
    from window_boundary_frame [OF wb] s sla
    have h: "held n' = dynamic_held n1" "held n = dynamic_held n" "scheduler n' = scheduler n"
      by (simp_all add: held_sla)
    from r b show ?thesis
      unfolding h cap_def [symmetric] by (intro conjI exI [of _ c]) (simp_all add: h)
  next
    case static
    obtain q3 c3 cap3 where p3: "process_queue t dt cap (priority_queue_3 n) = (q3, c3, cap3)"
      by (cases "process_queue t dt cap (priority_queue_3 n)") auto
    obtain q2 c2 cap2 where p2: "process_queue t dt cap3 (priority_queue_2 n) = (q2, c2, cap2)"
      by (cases "process_queue t dt cap3 (priority_queue_2 n)") auto
    obtain q1 c1 cap1 where p1: "process_queue t dt cap2 (priority_queue_1 n) = (q1, c1, cap1)"
      by (cases "process_queue t dt cap2 (priority_queue_1 n)") auto
    from assms static p3 p2 p1 have res: "completed = c3 @ c2 @ c1"
      "n' = n\<lparr>priority_queue_3 := q3, priority_queue_2 := q2, priority_queue_1 := q1\<rparr>"
      by (auto simp add: process_one_step_def Let_def cap_def)
    from static res have h: "held n = priority_queue_3 n @ priority_queue_2 n @ priority_queue_1 n"
      "held n' = q3 @ q2 @ q1" "scheduler n' = scheduler n"
      by (simp_all add: held_def)
    have r: "step_relates t dt (held n) completed (held n')"
      unfolding h res(1)
      by (intro step_relates_append pq_relates [OF p3] pq_relates [OF p2] pq_relates [OF p1])
    note b3 = pq_budget_all [OF p3] and b2 = pq_budget_all [OF p2] and b1 = pq_budget_all [OF p1]
    have bud: "total_remaining (held n) - total_remaining completed - total_remaining (held n')
        = cap - cap1"
      unfolding h res(1) using b3(1) b2(1) b1(1) by simp
    have nonneg: "0 \<le> cap \<longrightarrow> 0 \<le> cap1" using b3(2) b2(2) b1(2) by blast
    have same: "cap \<le> 0 \<longrightarrow> cap1 = cap" using b3(3) b2(3) b1(3) by auto
    have empty: "0 < cap1 \<longrightarrow> held n' = []"
    proof
      assume pos: "0 < cap1"
      from b1(4) [OF pos] have e1: "q1 = []" .
      from pos b1(3) have pos2: "0 < cap2" by fastforce
      from b2(4) [OF pos2] have e2: "q2 = []" .
      from pos2 b2(3) have pos3: "0 < cap3" by fastforce
      from b3(4) [OF pos3] have e3: "q3 = []" .
      from e1 e2 e3 show "held n' = []" by (simp add: h)
    qed
    from r h(3) bud nonneg same empty show ?thesis
      unfolding cap_def [symmetric] by (intro conjI exI [of _ cap1]) simp_all
  next
    case emergency
    obtain qe ce cape where pe: "process_queue t dt cap (emergency_queue n) = (qe, ce, cape)"
      by (cases "process_queue t dt cap (emergency_queue n)") auto
    obtain qn cn capn where pn: "process_queue t dt cape (normal_queue n) = (qn, cn, capn)"
      by (cases "process_queue t dt cape (normal_queue n)") auto
    from assms emergency pe pn have res: "completed = ce @ cn"
      "n' = n\<lparr>emergency_queue := qe, normal_queue := qn\<rparr>"
      by (auto simp add: process_one_step_def Let_def cap_def)
    from emergency res have h: "held n = emergency_queue n @ normal_queue n"
      "held n' = qe @ qn" "scheduler n' = scheduler n"
      by (simp_all add: held_def)
    have r: "step_relates t dt (held n) completed (held n')"
      unfolding h res(1)
      by (intro step_relates_append pq_relates [OF pe] pq_relates [OF pn])
    note be = pq_budget_all [OF pe] and bn = pq_budget_all [OF pn]
    have bud: "total_remaining (held n) - total_remaining completed - total_remaining (held n')
        = cap - capn"
      unfolding h res(1) using be(1) bn(1) by simp
    have nonneg: "0 \<le> cap \<longrightarrow> 0 \<le> capn" using be(2) bn(2) by blast
    have same: "cap \<le> 0 \<longrightarrow> capn = cap" using be(3) bn(3) by auto
    have empty: "0 < capn \<longrightarrow> held n' = []"
    proof
      assume pos: "0 < capn"
      from bn(4) [OF pos] have e1: "qn = []" .
      from pos bn(3) have pos2: "0 < cape" by fastforce
      from be(4) [OF pos2] have e2: "qe = []" .
      from e1 e2 show "held n' = []" by (simp add: h)
    qed
    from r h(3) bud nonneg same empty show ?thesis
      unfolding cap_def [symmetric] by (intro conjI exI [of _ capn]) simp_all
  next
    case fifo
    obtain q c cap1 where p: "process_queue t dt cap (queue n) = (q, c, cap1)"
      by (cases "process_queue t dt cap (queue n)") auto
    from assms fifo p have res: "completed = c" "n' = n\<lparr>queue := q\<rparr>"
      by (auto simp add: process_one_step_def Let_def cap_def)
    from fifo res have h: "held n = queue n" "held n' = q" "scheduler n' = scheduler n"
      by (simp_all add: held_def)
    have r: "step_relates t dt (held n) completed (held n')"
      unfolding h res(1) by (rule pq_relates [OF p])
    note b = pq_budget_all [OF p]
    from r h(3) b show ?thesis
      unfolding h res(1) cap_def [symmetric] by (intro conjI exI [of _ cap1]) simp_all
  qed
qed

lemma window_boundary_fields:
  assumes "sla_window_boundary n t = Inr n'"
  shows "current_request n' = current_request n" and "dynamic_queue_3 n' = dynamic_queue_3 n"
    and "dynamic_queue_2 n' = dynamic_queue_2 n" and "dynamic_queue_1 n' = dynamic_queue_1 n"
proof -
  have "current_request n' = current_request n \<and> dynamic_queue_3 n' = dynamic_queue_3 n
    \<and> dynamic_queue_2 n' = dynamic_queue_2 n \<and> dynamic_queue_1 n' = dynamic_queue_1 n"
  proof (cases "t - last_window_update n \<ge> getattr (sla_window_TW n) 10")
    case True
    with assms obtain n0 where u: "update_sla_weights_window n t = Inr n0"
      and n': "n' = n0\<lparr>last_window_update := t\<rparr>"
      by (auto simp add: sla_window_boundary_def Let_def split: sum.splits)
    from u have "current_request n0 = current_request n \<and> dynamic_queue_3 n0 = dynamic_queue_3 n
      \<and> dynamic_queue_2 n0 = dynamic_queue_2 n \<and> dynamic_queue_1 n0 = dynamic_queue_1 n"
      by (auto simp add: update_sla_weights_window_def Let_def split: if_splits)
    then show ?thesis by (simp add: n')
  next
    case False
    with assms show ?thesis by (simp add: sla_window_boundary_def Let_def)
  qed
  then show "current_request n' = current_request n" and "dynamic_queue_3 n' = dynamic_queue_3 n"
    and "dynamic_queue_2 n' = dynamic_queue_2 n" and "dynamic_queue_1 n' = dynamic_queue_1 n"
    by simp_all
qed

lemma sla_step:
  assumes "is_sla (scheduler n)" and "process_one_step n t dt = Inr (n', completed)"
  shows "(0 < cpu_capacity n * dt \<longrightarrow> line_served t dt (cpu_capacity n * dt) n n' completed)
    \<and> (cpu_capacity n * dt \<le> 0 \<longrightarrow>
          completed = [] \<and> current_request n' = current_request n
          \<and> dynamic_queue_3 n' = dynamic_queue_3 n \<and> dynamic_queue_2 n' = dynamic_queue_2 n
          \<and> dynamic_queue_1 n' = dynamic_queue_1 n)"
proof -
  define cap where "cap = cpu_capacity n * dt"
  from assms obtain n1 where
    loop: "sla_loop t dt n cap [] = Inr (n1, completed)"
    and wb: "sla_window_boundary n1 t = Inr n'"
    by (auto simp add: process_one_step_def Let_def cap_def split: sum.splits)
  note f = window_boundary_fields [OF wb] window_boundary_frame(4) [OF wb]
  have a: "line_served t dt cap n n' completed" if pos: "0 < cap"
  proof -
    from pos have "0 \<le> cap" "0 < cap \<or> current_request n \<noteq> None" by simp_all
    from sla_loop_exact [OF loop this] have "line_served t dt cap n n1 completed" by simp
    then show ?thesis unfolding line_served_def f .
  qed
  have b: "completed = [] \<and> current_request n' = current_request n
          \<and> dynamic_queue_3 n' = dynamic_queue_3 n \<and> dynamic_queue_2 n' = dynamic_queue_2 n
          \<and> dynamic_queue_1 n' = dynamic_queue_1 n" if "cap \<le> 0"
  proof -
    from that loop have "n1 = n" "completed = []"
      by (simp_all add: sla_loop.simps [of t dt n cap "[]"])
    with f show ?thesis by simp
  qed
  from a b show ?thesis unfolding cap_def by blast
qed

lemma line_outcome_count:
  assumes "line_outcome t dt cap line c1 cur1" and "line_outcome t dt cap line c2 cur2"
  shows "length c1 \<le> length c2"
proof (rule ccontr)
  assume "\<not> length c1 \<le> length c2"
  then have lt: "length c2 < length c1" by simp
  from assms(1) have "length c1 \<le> length line"
    and "\<forall>i < length c1. 0 < budget_left cap line i
           \<and> remaining_demand (line ! i) \<le> budget_left cap line i"
    unfolding line_outcome_def Let_def by blast+
  with lt have a: "length c2 \<noteq> length line" "0 < budget_left cap line (length c2)"
    "remaining_demand (line ! length c2) \<le> budget_left cap line (length c2)"
    by simp_all
  from assms(2) have "if length c2 = length line then cur2 = None
      else (budget_left cap line (length c2) = 0
            \<or> 0 < budget_left cap line (length c2)
               \<and> budget_left cap line (length c2) < remaining_demand (line ! length c2))
           \<and> cur2 = Some (reduce_request (budget_left cap line (length c2))
                           (line ! length c2))"
    unfolding line_outcome_def Let_def by blast
  with a show False by simp
qed

lemma line_outcome_unique:
  assumes "line_outcome t dt cap line c1 cur1" and "line_outcome t dt cap line c2 cur2"
  shows "c1 = c2 \<and> cur1 = cur2"
proof -
  from line_outcome_count [OF assms] line_outcome_count [OF assms(2,1)]
  have len: "length c1 = length c2" by simp
  from assms have "c1 = map (finish_request t dt) (take (length c1) line)"
    "c2 = map (finish_request t dt) (take (length c2) line)"
    unfolding line_outcome_def Let_def by blast+
  with len have c: "c1 = c2" by simp
  from assms(1) have t1: "if length c1 = length line then cur1 = None
      else (budget_left cap line (length c1) = 0
            \<or> 0 < budget_left cap line (length c1)
               \<and> budget_left cap line (length c1) < remaining_demand (line ! length c1))
           \<and> cur1 = Some (reduce_request (budget_left cap line (length c1))
                           (line ! length c1))"
    unfolding line_outcome_def Let_def by blast
  from assms(2) have t2: "if length c2 = length line then cur2 = None
      else (budget_left cap line (length c2) = 0
            \<or> 0 < budget_left cap line (length c2)
               \<and> budget_left cap line (length c2) < remaining_demand (line ! length c2))
           \<and> cur2 = Some (reduce_request (budget_left cap line (length c2))
                           (line ! length c2))"
    unfolding line_outcome_def Let_def by blast
  from t1 t2 len c show ?thesis by (simp split: if_splits)
qed

section \<open>Processing semantics\<close>

lemmas scenario_simps = scenario_def ex_scenario_node_def ex_scenario_request_def
  ex_request_def FogNode_init_def enqueue_request_def get_total_queue_length_def is_sla_def
  priority_append_def emergency_append_def add_link_load_def
  Let_def process_one_step_def numeral_3_eq_3 numeral_2_eq_2
  admission_control_check_timebased_def dynamic_append_def sla_loop.simps sla_loop_body_def
  sla_serve_current_def select_next_request_sla_def select_step_def priority_score_def
  dynamic_remove_def deque_remove_def sla_window_boundary_def getattr_def

lemma scenario_result:
  "\<forall>sched \<in> {''FIFO'', ''EMERGENCY_FIRST'', ''STATIC_PRIORITY'', ''SLA-DWP-Fog''}.
     map_sum id snd (scenario sched 2) = Inr []
     \<and> map_sum id snd (scenario sched 3)
         = Inr [ex_scenario_request\<lparr>remaining_demand := 0, start_time := Some 0,
                                    completion_time := Some 3\<rparr>]"
  by (simp add: scenario_simps)

lemma finished_facts:
  "finished t dt r r' \<Longrightarrow> remaining_demand r' = 0 \<and> completion_time r' = Some (t + dt)
     \<and> same_identity r r'"
  by (simp add: finished_def)

lemma stays_facts:
  "stays t r r' \<Longrightarrow> same_identity r r' \<and> completion_time r' = completion_time r
     \<and> (remaining_demand r' = remaining_demand r
         \<or> 0 < remaining_demand r' \<and> remaining_demand r' < remaining_demand r)"
  by (auto simp add: stays_def progressed_def)

text \<open>
  Claim C3. For every policy, a successful call \<open>process_one_step(current_time,
  time_step)\<close> relates the requests the node held to the completed list and the requests
  it holds afterwards (\<open>step_relates\<close>): every returned request is a held request with
  remaining demand set to 0 and completion time \<open>current_time + time_step\<close>; every request
  still held is a held request whose completion time is untouched and whose remaining
  demand is unchanged or reduced to a smaller positive value; no request is lost. With a
  non-negative budget \<open>cpu_capacity * time_step\<close> the demand served in the step is at most
  the budget, and with a positive budget it is exactly the budget unless the node is left
  empty. Hence remaining demand does not increase (for non-negative demands), and the
  invariant "remaining demand is 0 if and only if the completion time is set" carries over
  from the held requests to the completed and the still held ones.

  The outcome of the step is determined request by request. A FIFO node serves its queue
  from the head (\<open>queue_served\<close>): the completed list is exactly the first \<open>k\<close> requests,
  each of which was reached with a positive budget that covered its remaining demand,
  with remaining demand 0 and completion time \<open>current_time + time_step\<close>; the request
  behind them, if any, was reached with no budget left and is untouched, or its remaining
  demand exceeded the positive budget left and it stays at the head with its remaining
  demand reduced by exactly that budget; the requests further behind are untouched and
  nothing else of the node changes. A Static-Priority node serves queue 3, then queue 2
  with the budget queue 3 left, then queue 1 with the budget queue 2 left, each in that
  way, and an Emergency-First node its emergency queue and then its normal queue. An SLA
  node with a positive budget serves its service line, the request in service followed by
  the queued requests in dispatch order (\<open>line_served\<close>): the completed list is exactly
  the first \<open>k\<close> requests of the line, each reached with a positive budget that covered its
  remaining demand; the next request of the line, if any, is left in service, with its
  remaining demand reduced by exactly the positive budget left, which it exceeded, or as
  it was when the budget was used up exactly; the class queues lose the dispatched
  requests and are otherwise untouched, and the completed requests are appended to the
  completion history. An SLA node without a positive budget completes nothing and keeps
  its queues and the request in service as they are.

  In the scenario of one node of capacity 1, step length 1 and one request of demand 2.5
  offered at time 0, nothing has completed after two steps and the request has completed
  after three, with completion time 3, under each of the four policies.
\<close>

theorem process_step_semantics:
  assumes "process_one_step n t dt = Inr (n', completed)"
  shows "step_relates t dt (held n) completed (held n')
    \<and> (\<forall>r' \<in> set completed. remaining_demand r' = 0 \<and> completion_time r' = Some (t + dt))
    \<and> (0 \<le> cpu_capacity n * dt \<longrightarrow>
          total_remaining (held n) - total_remaining (completed @ held n')
            \<le> cpu_capacity n * dt)
    \<and> (0 < cpu_capacity n * dt \<longrightarrow>
          held n' = []
          \<or> total_remaining (held n) - total_remaining (completed @ held n')
               = cpu_capacity n * dt)
    \<and> ((\<forall>r \<in> set (held n). 0 \<le> remaining_demand r) \<longrightarrow>
          (\<forall>r \<in> set (held n). \<exists>r' \<in> set (completed @ held n').
              same_identity r r' \<and> remaining_demand r' \<le> remaining_demand r))
    \<and> ((\<forall>r \<in> set (held n). (remaining_demand r = 0) = (completion_time r \<noteq> None)) \<longrightarrow>
          (\<forall>r' \<in> set (completed @ held n').
              (remaining_demand r' = 0) = (completion_time r' \<noteq> None)))
    \<and> (\<not> is_sla (scheduler n) \<and> scheduler n \<noteq> ''STATIC_PRIORITY''
          \<and> scheduler n \<noteq> ''EMERGENCY_FIRST'' \<longrightarrow>
          (\<exists>cap'. n' = n\<lparr>queue := queue n'\<rparr>
             \<and> queue_served t dt (cpu_capacity n * dt) (queue n) (queue n') completed cap'))
    \<and> (scheduler n = ''STATIC_PRIORITY'' \<longrightarrow>
          (\<exists>c3 c2 c1 cap3 cap2 cap1. completed = c3 @ c2 @ c1
             \<and> n' = n\<lparr>priority_queue_3 := priority_queue_3 n',
                      priority_queue_2 := priority_queue_2 n',
                      priority_queue_1 := priority_queue_1 n'\<rparr>
             \<and> queue_served t dt (cpu_capacity n * dt) (priority_queue_3 n)
                  (priority_queue_3 n') c3 cap3
             \<and> queue_served t dt cap3 (priority_queue_2 n) (priority_queue_2 n') c2 cap2
             \<and> queue_served t dt cap2 (priority_queue_1 n) (priority_queue_1 n') c1 cap1))
    \<and> (scheduler n = ''EMERGENCY_FIRST'' \<longrightarrow>
          (\<exists>ce cn cape capn. completed = ce @ cn
             \<and> n' = n\<lparr>emergency_queue := emergency_queue n', normal_queue := normal_queue n'\<rparr>
             \<and> queue_served t dt (cpu_capacity n * dt) (emergency_queue n)
                  (emergency_queue n') ce cape
             \<and> queue_served t dt cape (normal_queue n) (normal_queue n') cn capn))
    \<and> (is_sla (scheduler n) \<and> 0 < cpu_capacity n * dt \<longrightarrow>
          line_served t dt (cpu_capacity n * dt) n n' completed)
    \<and> (is_sla (scheduler n) \<and> cpu_capacity n * dt \<le> 0 \<longrightarrow>
          completed = [] \<and> current_request n' = current_request n
          \<and> dynamic_queue_3 n' = dynamic_queue_3 n \<and> dynamic_queue_2 n' = dynamic_queue_2 n
          \<and> dynamic_queue_1 n' = dynamic_queue_1 n)
    \<and> (\<forall>sched \<in> {''FIFO'', ''EMERGENCY_FIRST'', ''STATIC_PRIORITY'', ''SLA-DWP-Fog''}.
          map_sum id snd (scenario sched 2) = Inr []
          \<and> map_sum id snd (scenario sched 3)
              = Inr [ex_scenario_request\<lparr>remaining_demand := 0, start_time := Some 0,
                                         completion_time := Some 3\<rparr>])"
proof -
  from process_one_step_relates [OF assms] obtain c where
    rel: "step_relates t dt (held n) completed (held n')"
    and bud: "total_remaining (held n) - total_remaining completed - total_remaining (held n')
             = cpu_capacity n * dt - c"
    and c: "0 \<le> cpu_capacity n * dt \<longrightarrow> 0 \<le> c"
      "0 < cpu_capacity n * dt \<and> 0 < c \<longrightarrow> held n' = []"
    by blast
  from rel have
    fin: "\<And>r'. r' \<in> set completed \<Longrightarrow> \<exists>r\<in>set (held n). finished t dt r r'" and
    sty: "\<And>r'. r' \<in> set (held n') \<Longrightarrow> \<exists>r\<in>set (held n). stays t r r'" and
    all: "\<And>r. r \<in> set (held n) \<Longrightarrow>
           (\<exists>r'\<in>set completed. finished t dt r r') \<or> (\<exists>r'\<in>set (held n'). stays t r r')"
    unfolding step_relates_def by simp_all
  have p2: "\<forall>r' \<in> set completed. remaining_demand r' = 0 \<and> completion_time r' = Some (t + dt)"
    using fin finished_facts by blast
  have p3: "0 \<le> cpu_capacity n * dt \<longrightarrow>
          total_remaining (held n) - total_remaining (completed @ held n')
            \<le> cpu_capacity n * dt"
    using bud c(1) by (simp add: diff_diff_eq [symmetric] del: diff_diff_eq)
  have p4: "0 < cpu_capacity n * dt \<longrightarrow>
          held n' = []
          \<or> total_remaining (held n) - total_remaining (completed @ held n')
               = cpu_capacity n * dt"
  proof
    assume pos: "0 < cpu_capacity n * dt"
    show "held n' = []
          \<or> total_remaining (held n) - total_remaining (completed @ held n')
               = cpu_capacity n * dt"
    proof (cases "0 < c")
      case True
      with pos c(2) show ?thesis by simp
    next
      case False
      with pos c(1) have "c = 0" by simp
      with bud show ?thesis by (simp add: diff_diff_eq [symmetric] del: diff_diff_eq)
    qed
  qed
  have p5: "(\<forall>r \<in> set (held n). 0 \<le> remaining_demand r) \<longrightarrow>
          (\<forall>r \<in> set (held n). \<exists>r' \<in> set (completed @ held n').
              same_identity r r' \<and> remaining_demand r' \<le> remaining_demand r)"
  proof (intro impI ballI)
    fix r
    assume nonneg: "\<forall>r \<in> set (held n). 0 \<le> remaining_demand r" and r: "r \<in> set (held n)"
    from all [OF r] show "\<exists>r' \<in> set (completed @ held n').
              same_identity r r' \<and> remaining_demand r' \<le> remaining_demand r"
    proof
      assume "\<exists>r'\<in>set completed. finished t dt r r'"
      then obtain r' where "r' \<in> set completed" "finished t dt r r'" by blast
      with finished_facts [of t dt r r'] nonneg r show ?thesis by auto
    next
      assume "\<exists>r'\<in>set (held n'). stays t r r'"
      then obtain r' where "r' \<in> set (held n')" "stays t r r'" by blast
      with stays_facts [of t r r'] show ?thesis by auto
    qed
  qed
  have p6: "(\<forall>r \<in> set (held n). (remaining_demand r = 0) = (completion_time r \<noteq> None)) \<longrightarrow>
          (\<forall>r' \<in> set (completed @ held n').
              (remaining_demand r' = 0) = (completion_time r' \<noteq> None))"
  proof (intro impI ballI)
    fix r'
    assume inv: "\<forall>r \<in> set (held n). (remaining_demand r = 0) = (completion_time r \<noteq> None)"
      and "r' \<in> set (completed @ held n')"
    then consider "r' \<in> set completed" | "r' \<in> set (held n')" by auto
    then show "(remaining_demand r' = 0) = (completion_time r' \<noteq> None)"
    proof cases
      case 1
      with p2 show ?thesis by simp
    next
      case 2
      from sty [OF 2] obtain r where r: "r \<in> set (held n)" "stays t r r'" by blast
      from inv r(1) have "(remaining_demand r = 0) = (completion_time r \<noteq> None)" by simp
      with stays_facts [OF r(2)] show ?thesis by auto
    qed
  qed
  have e1: "\<not> is_sla (scheduler n) \<and> scheduler n \<noteq> ''STATIC_PRIORITY''
          \<and> scheduler n \<noteq> ''EMERGENCY_FIRST'' \<longrightarrow>
          (\<exists>cap'. n' = n\<lparr>queue := queue n'\<rparr>
             \<and> queue_served t dt (cpu_capacity n * dt) (queue n) (queue n') completed cap')"
  proof
    assume a: "\<not> is_sla (scheduler n) \<and> scheduler n \<noteq> ''STATIC_PRIORITY''
          \<and> scheduler n \<noteq> ''EMERGENCY_FIRST''"
    then have "\<not> is_sla (scheduler n)" "scheduler n \<noteq> ''STATIC_PRIORITY''"
      "scheduler n \<noteq> ''EMERGENCY_FIRST''" by simp_all
    from fifo_step [OF this assms]
    show "\<exists>cap'. n' = n\<lparr>queue := queue n'\<rparr>
             \<and> queue_served t dt (cpu_capacity n * dt) (queue n) (queue n') completed cap'" .
  qed
  have e2: "scheduler n = ''STATIC_PRIORITY'' \<longrightarrow>
          (\<exists>c3 c2 c1 cap3 cap2 cap1. completed = c3 @ c2 @ c1
             \<and> n' = n\<lparr>priority_queue_3 := priority_queue_3 n',
                      priority_queue_2 := priority_queue_2 n',
                      priority_queue_1 := priority_queue_1 n'\<rparr>
             \<and> queue_served t dt (cpu_capacity n * dt) (priority_queue_3 n)
                  (priority_queue_3 n') c3 cap3
             \<and> queue_served t dt cap3 (priority_queue_2 n) (priority_queue_2 n') c2 cap2
             \<and> queue_served t dt cap2 (priority_queue_1 n) (priority_queue_1 n') c1 cap1)"
    by (intro impI static_step assms)
  have e3: "scheduler n = ''EMERGENCY_FIRST'' \<longrightarrow>
          (\<exists>ce cn cape capn. completed = ce @ cn
             \<and> n' = n\<lparr>emergency_queue := emergency_queue n', normal_queue := normal_queue n'\<rparr>
             \<and> queue_served t dt (cpu_capacity n * dt) (emergency_queue n)
                  (emergency_queue n') ce cape
             \<and> queue_served t dt cape (normal_queue n) (normal_queue n') cn capn)"
    by (intro impI emergency_step assms)
  have e4: "is_sla (scheduler n) \<and> 0 < cpu_capacity n * dt \<longrightarrow>
          line_served t dt (cpu_capacity n * dt) n n' completed"
  proof
    assume a: "is_sla (scheduler n) \<and> 0 < cpu_capacity n * dt"
    then have s: "is_sla (scheduler n)" by simp
    from sla_step [OF s assms] a
    show "line_served t dt (cpu_capacity n * dt) n n' completed" by simp
  qed
  have e5: "is_sla (scheduler n) \<and> cpu_capacity n * dt \<le> 0 \<longrightarrow>
          completed = [] \<and> current_request n' = current_request n
          \<and> dynamic_queue_3 n' = dynamic_queue_3 n \<and> dynamic_queue_2 n' = dynamic_queue_2 n
          \<and> dynamic_queue_1 n' = dynamic_queue_1 n"
  proof
    assume a: "is_sla (scheduler n) \<and> cpu_capacity n * dt \<le> 0"
    then have s: "is_sla (scheduler n)" by simp
    from sla_step [OF s assms] a
    show "completed = [] \<and> current_request n' = current_request n
          \<and> dynamic_queue_3 n' = dynamic_queue_3 n \<and> dynamic_queue_2 n' = dynamic_queue_2 n
          \<and> dynamic_queue_1 n' = dynamic_queue_1 n" by simp
  qed
  note sc = scenario_result
  from rel p2 p3 p4 p5 p6 e1 e2 e3 e4 e5 sc show ?thesis
    by (intro conjI)
qed


text \<open>
  The theorem at the first step of the scenario on the FIFO node: the request is served
  one unit of its 2.5, stays queued, and the whole budget is used; at a step of the SLA
  node of capacity 10 that holds two requests of demand 10; and at a step of the
  Static-Priority and the Emergency-First node of capacity 10 that hold a request of demand
  20 and a class-1 request of demand 4.
\<close>

theorem process_step_semantics_witness:
  "process_one_step ex_scenario_admitted 0 1 = Inr (ex_scenario_after_step, [])
   \<and> total_remaining (held ex_scenario_admitted)
        - total_remaining ([] @ held ex_scenario_after_step)
       = cpu_capacity ex_scenario_admitted * 1
   \<and> map remaining_demand (held ex_scenario_admitted) = [5 / 2]
   \<and> map remaining_demand (held ex_scenario_after_step) = [3 / 2]
   \<and> map completion_time (held ex_scenario_after_step) = [None]
   \<and> process_one_step ex_sla_two 0 1
       = Inr (ex_sla_two_after,
              [(ex_request 0 10)\<lparr>remaining_demand := 0, start_time := Some 0,
                                  completion_time := Some 1\<rparr>])
   \<and> is_sla (scheduler ex_sla_two) \<and> 0 < cpu_capacity ex_sla_two * 1
   \<and> process_one_step ex_static_node 0 1
     = Inr (ex_static_node
              \<lparr>priority_queue_3 := [(ex_request 0 20)\<lparr>remaining_demand := 10, start_time := Some 0\<rparr>]\<rparr>,
            [])
   \<and> process_one_step ex_emergency_node 0 1
     = Inr (ex_emergency_node
              \<lparr>emergency_queue := [(ex_request 0 20)\<lparr>remaining_demand := 10, start_time := Some 0\<rparr>]\<rparr>,
            [])"
proof -
  have fifo: "process_one_step ex_scenario_admitted 0 1 = Inr (ex_scenario_after_step, [])
   \<and> total_remaining (held ex_scenario_admitted)
        - total_remaining ([] @ held ex_scenario_after_step)
       = cpu_capacity ex_scenario_admitted * 1
   \<and> map remaining_demand (held ex_scenario_admitted) = [5 / 2]
   \<and> map remaining_demand (held ex_scenario_after_step) = [3 / 2]
   \<and> map completion_time (held ex_scenario_after_step) = [None]"
    using process_step_semantics [of ex_scenario_admitted 0 1 ex_scenario_after_step "[]"]
    by (simp add: ex_scenario_admitted_def ex_scenario_after_step_def ex_scenario_node_def
        ex_scenario_request_def ex_request_def FogNode_init_def process_one_step_def
        is_sla_def held_def Let_def)
  have sla: "process_one_step ex_sla_two 0 1
       = Inr (ex_sla_two_after,
              [(ex_request 0 10)\<lparr>remaining_demand := 0, start_time := Some 0,
                                  completion_time := Some 1\<rparr>])
   \<and> is_sla (scheduler ex_sla_two) \<and> 0 < cpu_capacity ex_sla_two * 1"
    using process_step_semantics [of ex_sla_two 0 1 ex_sla_two_after
      "[(ex_request 0 10)\<lparr>remaining_demand := 0, start_time := Some 0,
                          completion_time := Some 1\<rparr>]"]
    by (simp add: ex_request_def FogNode_init_def process_one_step_def
        is_sla_def Let_def ex_sla_two_def ex_sla_two_after_def ex_node_def
        sla_loop.simps sla_loop_body_def sla_serve_current_def select_next_request_sla_def
        select_step_def priority_score_def dynamic_remove_def deque_remove_def
        sla_window_boundary_def getattr_def)
  have static: "process_one_step ex_static_node 0 1
     = Inr (ex_static_node
              \<lparr>priority_queue_3 := [(ex_request 0 20)\<lparr>remaining_demand := 10, start_time := Some 0\<rparr>]\<rparr>,
            [])"
    using process_step_semantics [of ex_static_node 0 1
      "ex_static_node
         \<lparr>priority_queue_3 := [(ex_request 0 20)\<lparr>remaining_demand := 10, start_time := Some 0\<rparr>]\<rparr>"
      "[]"]
    by (simp add: step_simps)
  have emergency: "process_one_step ex_emergency_node 0 1
     = Inr (ex_emergency_node
              \<lparr>emergency_queue := [(ex_request 0 20)\<lparr>remaining_demand := 10, start_time := Some 0\<rparr>]\<rparr>,
            [])"
    using process_step_semantics [of ex_emergency_node 0 1
      "ex_emergency_node
         \<lparr>emergency_queue := [(ex_request 0 20)\<lparr>remaining_demand := 10, start_time := Some 0\<rparr>]\<rparr>"
      "[]"]
    by (simp add: step_simps)
  from fifo sla static emergency show ?thesis by (elim conjE) (intro conjI)
qed

section \<open>Admission and the held requests\<close>

lemma same_identity_arrival: "same_identity r r' \<Longrightarrow> arrival_time r' = arrival_time r"
proof -
  assume "same_identity r r'"
  then have "arrival_time (runtime_cleared r') = arrival_time (runtime_cleared r)"
    by (simp add: same_identity_def)
  then show ?thesis by (simp add: runtime_cleared_def)
qed

lemma append_mset:
  "mset (dynamic_held (dynamic_append r n)) = add_mset r (mset (dynamic_held n))"
  "scheduler (dynamic_append r n) = scheduler n"
  "current_request (dynamic_append r n) = current_request n"
  by (simp_all add: dynamic_append_def dynamic_held_def)

lemma dynamic_held_rejected:
  "dynamic_held (n\<lparr>total_rejected_due_to_deadline := x\<rparr>) = dynamic_held n"
  by (simp add: dynamic_held_def)

lemma preempt_mset:
  assumes "current_request n = Some cur"
  shows "mset (dynamic_held
           ((dynamic_pop r (dynamic_appendleft cur (dynamic_append r n)))
              \<lparr>current_request := Some r'\<rparr>))
         = add_mset r' (mset (dynamic_held n))"
    and "scheduler ((dynamic_pop r (dynamic_appendleft cur (dynamic_append r n)))
              \<lparr>current_request := Some r'\<rparr>) = scheduler n"
  using assms
  by (simp_all add: dynamic_pop_def dynamic_appendleft_def dynamic_append_def dynamic_held_def)

lemma add_link_load_frame:
  "held (add_link_load r n) = held n" "scheduler (add_link_load r n) = scheduler n"
  by (simp_all add: add_link_load_def held_def dynamic_held_def split: option.splits)

lemma priority_append_held:
  "scheduler n = ''STATIC_PRIORITY'' \<Longrightarrow>
     mset (held (priority_append r n)) = add_mset r (mset (held n))"
  "scheduler (priority_append r n) = scheduler n"
  by (simp_all add: priority_append_def held_def is_sla_def)

lemma emergency_append_held:
  "scheduler n = ''EMERGENCY_FIRST'' \<Longrightarrow>
     mset (held (emergency_append r n)) = add_mset r (mset (held n))"
  "scheduler (emergency_append r n) = scheduler n"
  by (simp_all add: emergency_append_def held_def is_sla_def)

lemma fifo_append_held:
  "\<not> is_sla (scheduler n) \<Longrightarrow> scheduler n \<noteq> ''STATIC_PRIORITY'' \<Longrightarrow>
     scheduler n \<noteq> ''EMERGENCY_FIRST'' \<Longrightarrow>
     mset (held (n\<lparr>queue := queue n @ [r]\<rparr>)) = add_mset r (mset (held n))"
  by (simp add: held_def)

text \<open>
  The effect of \<open>enqueue_request\<close> on the held requests: a refusal leaves them as they
  are; an admission adds the request, with its start time set to its arrival time when it
  preempts the request in service.
\<close>

lemma enqueue_held:
  assumes "enqueue_request n r dt = Inr (n1, ok, reason)"
  shows "scheduler n1 = scheduler n \<and> (\<not> ok \<longrightarrow> held n1 = held n)
    \<and> (ok \<longrightarrow> (\<exists>r'. mset (held n1) = add_mset r' (mset (held n))
            \<and> (r' = r \<or> (start_time r = None \<and> r' = r\<lparr>start_time := Some (arrival_time r)\<rparr>))))"
proof (cases "case max_queue_length n of None \<Rightarrow> False
              | Some m \<Rightarrow> m \<le> get_total_queue_length n")
  case True
  with assms have "n1 = n" "\<not> ok" by (simp_all add: enqueue_request_def Let_def)
  then show ?thesis by simp
next
  case room: False
  consider (sla) "is_sla (scheduler n)"
    | (static) "\<not> is_sla (scheduler n)" "scheduler n = ''STATIC_PRIORITY''"
    | (emergency) "\<not> is_sla (scheduler n)" "scheduler n \<noteq> ''STATIC_PRIORITY''"
        "scheduler n = ''EMERGENCY_FIRST''"
    | (fifo) "\<not> is_sla (scheduler n)" "scheduler n \<noteq> ''STATIC_PRIORITY''"
        "scheduler n \<noteq> ''EMERGENCY_FIRST''"
    by blast
  then show ?thesis
  proof cases
    case sla
    from assms room sla obtain adm where
      chk: "admission_control_check_timebased n r = Inr adm"
      by (auto simp add: enqueue_request_def Let_def split: sum.splits)
    show ?thesis
    proof (cases adm)
      case False
      with assms room sla chk
      have "n1 = n\<lparr>total_rejected_due_to_deadline := total_rejected_due_to_deadline n + 1\<rparr>"
        "\<not> ok"
        by (simp_all add: enqueue_request_def Let_def)
      with sla show ?thesis by (simp add: held_sla dynamic_held_rejected)
    next
      case True
      define r' where
        "r' = (if start_time r = None then r\<lparr>start_time := Some (arrival_time r)\<rparr> else r)"
      have r': "r' = r \<or> (start_time r = None \<and> r' = r\<lparr>start_time := Some (arrival_time r)\<rparr>)"
        by (simp add: r'_def)
      show ?thesis
      proof (cases "current_request n")
        case None
        with assms room sla chk True have "n1 = dynamic_append r n" "ok"
          by (simp_all add: enqueue_request_def Let_def append_mset)
        with sla show ?thesis by (simp add: held_sla append_mset)
      next
        case (Some cur)
        show ?thesis
        proof (cases "priority_score (dynamic_append r n) r (arrival_time r)
                        > priority_score (dynamic_append r n) cur (arrival_time r)")
          case False
          with Some assms room sla chk True have "n1 = dynamic_append r n" "ok"
            by (simp_all add: enqueue_request_def Let_def append_mset)
          with sla show ?thesis by (simp add: held_sla append_mset)
        next
          case pre: True
          with Some assms room sla chk True
          have res: "n1 = (dynamic_pop r (dynamic_appendleft cur (dynamic_append r n)))
                     \<lparr>current_request := Some r'\<rparr>" "ok"
            by (simp_all add: enqueue_request_def Let_def append_mset r'_def)
          from preempt_mset [OF Some, where r = r and r' = r'] sla
          have "mset (held n1) = add_mset r' (mset (held n))" "scheduler n1 = scheduler n"
            unfolding res(1) by (simp_all add: held_sla)
          with res(2) r' show ?thesis by blast
        qed
      qed
    qed
  next
    case static
    with assms room have res: "n1 = add_link_load r (priority_append r n)" "ok"
      by (simp_all add: enqueue_request_def Let_def)
    from priority_append_held(1) [OF static(2), of r]
    have "mset (held n1) = add_mset r (mset (held n))"
      unfolding res(1) add_link_load_frame .
    moreover have "scheduler n1 = scheduler n"
      unfolding res(1) add_link_load_frame priority_append_held(2) ..
    ultimately show ?thesis using res(2) by blast
  next
    case emergency
    with assms room have res: "n1 = add_link_load r (emergency_append r n)" "ok"
      by (simp_all add: enqueue_request_def Let_def)
    from emergency_append_held(1) [OF emergency(3), of r]
    have "mset (held n1) = add_mset r (mset (held n))"
      unfolding res(1) add_link_load_frame .
    moreover have "scheduler n1 = scheduler n"
      unfolding res(1) add_link_load_frame emergency_append_held(2) ..
    ultimately show ?thesis using res(2) by blast
  next
    case fifo
    from fifo have "get_total_queue_length n = int (length (queue n))"
      by (simp add: get_total_queue_length_def)
    with room have "\<not> (case max_queue_length n of None \<Rightarrow> False
              | Some m \<Rightarrow> m \<le> int (length (queue n)))"
      by (cases "max_queue_length n") simp_all
    with assms room fifo have res: "n1 = add_link_load r (n\<lparr>queue := queue n @ [r]\<rparr>)" "ok"
      by (simp_all add: enqueue_request_def Let_def)
    from fifo_append_held [OF fifo, of r]
    have "mset (held n1) = add_mset r (mset (held n))"
      unfolding res(1) add_link_load_frame .
    moreover have "scheduler n1 = scheduler n"
      unfolding res(1) add_link_load_frame by simp
    ultimately show ?thesis using res(2) by blast
  qed
qed

section \<open>Timestamps\<close>

text \<open>
  Claim C9. The claim states that a start time is set at the first moment a request
  receives processing capacity, so that a request that has never been given capacity has
  no start time. The SLA loop tests the budget only at its top: after a completion that
  uses the budget exactly, the body still selects the next request, records its start time
  and puts it in service, and only then the loop ends. The SLA node below has capacity 10
  and holds two requests of demand 10. A step of length 1 at time 0 finishes the first with
  the whole budget; after the step the second request is in service with start time 0 and
  its remaining demand is still its full processing demand. The FIFO node with the same
  capacity and the same two requests finishes the first and leaves the second as it was,
  with no start time.
\<close>

theorem sla_start_time_without_capacity:
  "process_one_step ex_sla_two 0 1
     = Inr (ex_sla_two_after,
            [(ex_request 0 10)\<lparr>remaining_demand := 0, start_time := Some 0,
                                completion_time := Some 1\<rparr>])
   \<and> held ex_sla_two = [ex_request 0 10, ex_request 1 10]
   \<and> start_time (ex_request 1 10) = None
   \<and> cpu_capacity ex_sla_two * 1 - remaining_demand (ex_request 0 10) = 0
   \<and> held ex_sla_two_after = [(ex_request 1 10)\<lparr>start_time := Some 0\<rparr>]
   \<and> remaining_demand ((ex_request 1 10)\<lparr>start_time := Some 0\<rparr>)
       = processing_demand (ex_request 1 10)
   \<and> start_time ((ex_request 1 10)\<lparr>start_time := Some 0\<rparr>) = Some 0
   \<and> held ex_fifo_two = held ex_sla_two
   \<and> cpu_capacity ex_fifo_two = cpu_capacity ex_sla_two
   \<and> process_one_step ex_fifo_two 0 1
     = Inr (ex_fifo_two\<lparr>queue := [ex_request 1 10]\<rparr>,
            [(ex_request 0 10)\<lparr>remaining_demand := 0, start_time := Some 0,
                                completion_time := Some 1\<rparr>])"
  by (simp add: ex_sla_two_def ex_sla_two_after_def ex_fifo_two_def ex_node_def ex_request_def
        FogNode_init_def process_one_step_def is_sla_def held_def Let_def
        sla_loop.simps sla_loop_body_def sla_serve_current_def select_next_request_sla_def
        select_step_def priority_score_def dynamic_remove_def deque_remove_def
        sla_window_boundary_def getattr_def)

section \<open>Conservation of requests\<close>

lemma in_system_reset: "in_system (map reset_step_state nodes) = in_system nodes"
proof -
  have "held (reset_step_state n) = held n" for n
    by (simp add: held_def reset_step_state_def)
  then show ?thesis by (simp add: in_system_def comp_def)
qed

lemma nearest_fold_index:
  "foldl (nearest_step pos) best xs = Some (i, d) \<Longrightarrow>
     (\<exists>d'. best = Some (i, d')) \<or> i \<in> fst ` set xs"
proof (induction xs arbitrary: best)
  case Nil
  then show ?case by simp
next
  case (Cons x xs)
  from Cons.IH [OF Cons.prems [simplified]]
  show ?case
    by (auto simp add: nearest_step_def Let_def split: option.splits if_splits prod.splits)
qed

lemma nearest_index:
  assumes "get_nearest_fog nodes pos = Inr i"
  shows "i < length nodes"
proof -
  from assms obtain d where
    "foldl (nearest_step pos) None (zip [0 ..< length nodes] nodes) = Some (i, d)"
    by (auto simp add: get_nearest_fog_def split: option.splits)
  from nearest_fold_index [OF this] have "i \<in> fst ` set (zip [0 ..< length nodes] nodes)"
    by simp
  then have "i \<in> set [0 ..< length nodes]"
    by (auto dest: set_zip_leftD)
  then show ?thesis by simp
qed

lemma in_system_update:
  "i < length nodes \<Longrightarrow>
     in_system (nodes[i := n']) + length (held (nodes ! i))
       = in_system nodes + length (held n')"
proof (induction nodes arbitrary: i)
  case Nil
  then show ?case by simp
next
  case (Cons a nodes)
  show ?case
  proof (cases i)
    case 0
    then show ?thesis by (simp add: in_system_def)
  next
    case (Suc j)
    with Cons.prems have "j < length nodes" by simp
    from Cons.IH [OF this] Suc show ?thesis by (simp add: in_system_def)
  qed
qed

lemma record_dropped_counters:
  "total_generated (record_dropped m r reason) = total_generated m"
  "total_admitted (record_dropped m r reason) = total_admitted m"
  "total_rejected (record_dropped m r reason) = total_rejected m"
  "total_dropped (record_dropped m r reason) = total_dropped m + 1"
  "total_completed (record_dropped m r reason) = total_completed m"
  by (simp_all add: record_dropped_def Let_def)

lemma record_rejected_counters:
  "total_generated (record_rejected m r reason) = total_generated m"
  "total_admitted (record_rejected m r reason) = total_admitted m"
  "total_rejected (record_rejected m r reason) = total_rejected m + 1"
  "total_dropped (record_rejected m r reason) = total_dropped m"
  "total_completed (record_rejected m r reason) = total_completed m"
  by (simp_all add: record_rejected_def Let_def)

lemma record_generated_counters:
  "total_generated (record_generated m rs) = total_generated m + int (length rs)"
  "total_admitted (record_generated m rs) = total_admitted m"
  "total_rejected (record_generated m rs) = total_rejected m"
  "total_dropped (record_generated m rs) = total_dropped m"
  "total_completed (record_generated m rs) = total_completed m"
  by (simp_all add: record_generated_def)

lemma record_completed_fold:
  "total_generated (foldl record_completed_one m rs) = total_generated m
   \<and> total_admitted (foldl record_completed_one m rs) = total_admitted m
   \<and> total_rejected (foldl record_completed_one m rs) = total_rejected m
   \<and> total_dropped (foldl record_completed_one m rs) = total_dropped m
   \<and> total_completed (foldl record_completed_one m rs) = total_completed m"
proof (induction rs arbitrary: m)
  case Nil
  then show ?case by simp
next
  case (Cons r rs)
  have "total_generated (record_completed_one m r) = total_generated m
   \<and> total_admitted (record_completed_one m r) = total_admitted m
   \<and> total_rejected (record_completed_one m r) = total_rejected m
   \<and> total_dropped (record_completed_one m r) = total_dropped m
   \<and> total_completed (record_completed_one m r) = total_completed m"
    by (simp add: record_completed_one_def split: option.splits)
  with Cons.IH [of "record_completed_one m r"] show ?case by simp
qed

lemma record_completed_counters:
  "total_generated (record_completed m rs) = total_generated m"
  "total_admitted (record_completed m rs) = total_admitted m"
  "total_rejected (record_completed m rs) = total_rejected m"
  "total_dropped (record_completed m rs) = total_dropped m"
  "total_completed (record_completed m rs) = total_completed m + int (length rs)"
  unfolding record_completed_def
  using record_completed_fold
    [of "m\<lparr>total_completed := total_completed m + int (length rs),
           per_step_completed := per_step_completed m @ [int (length rs)]\<rparr>" rs]
  by simp_all

lemma record_queue_lengths_counters:
  "total_generated (record_queue_lengths m nodes) = total_generated m"
  "total_admitted (record_queue_lengths m nodes) = total_admitted m"
  "total_rejected (record_queue_lengths m nodes) = total_rejected m"
  "total_dropped (record_queue_lengths m nodes) = total_dropped m"
  "total_completed (record_queue_lengths m nodes) = total_completed m"
  by (simp_all add: record_queue_lengths_def split: list.splits)

lemma step_advance_counters:
  "total_generated (step_advance m) = total_generated m"
  "total_admitted (step_advance m) = total_admitted m"
  "total_rejected (step_advance m) = total_rejected m"
  "total_dropped (step_advance m) = total_dropped m"
  "total_completed (step_advance m) = total_completed m"
  by (simp_all add: step_advance_def)

text \<open>
  Routing one request classifies it once: exactly one of the three counters grows by one,
  and the number of held requests grows with the admitted counter.
\<close>

lemma route_request_counts:
  assumes "route_request dt r (nodes, m) = Inr (nodes', m')"
  shows "total_generated m' = total_generated m \<and> total_completed m' = total_completed m
    \<and> total_admitted m' + total_rejected m' + total_dropped m'
        = total_admitted m + total_rejected m + total_dropped m + 1
    \<and> total_admitted m' + int (in_system nodes) = total_admitted m + int (in_system nodes')
    \<and> total_admitted m \<le> total_admitted m'"
proof -
  from assms obtain i where near: "get_nearest_fog nodes (source_position r) = Inr i"
    by (auto simp add: route_request_def split: sum.splits)
  from nearest_index [OF near] have i: "i < length nodes" .
  define req where "req = r\<lparr>assigned_fog_id := Some (node_id (nodes ! i))\<rparr>"
  show ?thesis
  proof (cases "can_accept_request (nodes ! i) req dt")
    case False
    with assms near have "nodes' = nodes" "m' = record_dropped m req ''link_capacity''"
      by (auto simp add: route_request_def Let_def req_def)
    then show ?thesis by (simp add: record_dropped_counters)
  next
    case True
    with assms near obtain n1 ok reason where
      enq: "enqueue_request (nodes ! i) req dt = Inr (n1, ok, reason)"
      by (auto simp add: route_request_def Let_def req_def split: sum.splits)
    from enqueue_held [OF enq] have
      no: "\<not> ok \<Longrightarrow> held n1 = held (nodes ! i)"
      and yes: "ok \<Longrightarrow> \<exists>r'. mset (held n1) = add_mset r' (mset (held (nodes ! i)))"
      by blast+
    from True assms near enq have nodes': "nodes' = nodes[i := n1]"
      by (auto simp add: route_request_def Let_def req_def split: if_splits)
    show ?thesis
    proof (cases ok)
      case ok: True
      from yes [OF ok] obtain r' where "mset (held n1) = add_mset r' (mset (held (nodes ! i)))"
        by blast
      from arg_cong [OF this, of size] have len: "length (held n1) = Suc (length (held (nodes ! i)))"
        by simp
      from True assms near enq ok have m': "m' = m\<lparr>total_admitted := total_admitted m + 1\<rparr>"
        by (auto simp add: route_request_def Let_def req_def)
      from in_system_update [OF i, of n1] len
      have "in_system nodes' = in_system nodes + 1" unfolding nodes' by simp
      then show ?thesis by (simp add: m')
    next
      case bad: False
      from no [OF bad] in_system_update [OF i, of n1]
      have same: "in_system nodes' = in_system nodes" unfolding nodes' by simp
      from True assms near enq bad have
        "m' = record_rejected m req ''admission_rejected''
         \<or> m' = record_dropped m req ''queue_full''"
        by (auto simp add: route_request_def Let_def req_def split: if_splits)
      with same show ?thesis
        by (auto simp add: record_rejected_counters record_dropped_counters)
    qed
  qed
qed

lemma route_requests_counts:
  "route_requests dt rs (nodes, m) = Inr (nodes', m') \<Longrightarrow>
     total_generated m' = total_generated m \<and> total_completed m' = total_completed m
     \<and> total_admitted m' + total_rejected m' + total_dropped m'
         = total_admitted m + total_rejected m + total_dropped m + int (length rs)
     \<and> total_admitted m' + int (in_system nodes) = total_admitted m + int (in_system nodes')
     \<and> total_admitted m \<le> total_admitted m'"
proof (induction rs arbitrary: nodes m)
  case Nil
  then show ?case by simp
next
  case (Cons r rs)
  from Cons.prems obtain nodes1 m1 where
    one: "route_request dt r (nodes, m) = Inr (nodes1, m1)"
    and rest: "route_requests dt rs (nodes1, m1) = Inr (nodes', m')"
    by (cases "route_request dt r (nodes, m)") auto
  from route_request_counts [OF one] Cons.IH [OF rest] show ?case by simp
qed

lemma process_all_nodes_counts:
  "process_all_nodes t dt nodes = Inr (nodes', completed) \<Longrightarrow>
     in_system nodes' + length completed = in_system nodes"
proof (induction nodes arbitrary: nodes' completed)
  case Nil
  then show ?case by (simp add: in_system_def)
next
  case (Cons n nodes)
  from Cons.prems obtain n1 c1 where one: "process_one_step n t dt = Inr (n1, c1)"
    by (cases "process_one_step n t dt") auto
  from Cons.prems one obtain rest' c2 where
    rest: "process_all_nodes t dt nodes = Inr (rest', c2)"
    by (cases "process_all_nodes t dt nodes") auto
  from Cons.prems one rest have res: "nodes' = n1 # rest'" "completed = c1 @ c2" by simp_all
  from process_one_step_relates [OF one]
  have "length (held n1) + length c1 = length (held n)"
    by (simp add: step_relates_def)
  with Cons.IH [OF rest] show ?case
    unfolding res by (simp add: in_system_def)
qed

lemma sim_step_counters:
  assumes "counters_ok (metrics s) (topology s)" and "sim_step s = Inr s'"
  shows "counters_ok (metrics s') (topology s')"
proof -
  define dt where "dt = step_length (config s)"
  define nodes where "nodes = map reset_step_state (topology s)"
  obtain new gen' g' where
    gen: "generate_requests (config s) (generator s) (random_state s) (clock s)
            = (new, gen', g')"
    by (cases "generate_requests (config s) (generator s) (random_state s) (clock s)") auto
  from assms(2) gen obtain nodes1 m1 where
    route: "route_requests dt new (nodes, record_generated (metrics s) new) = Inr (nodes1, m1)"
    by (auto simp add: sim_step_def Let_def dt_def nodes_def split: sum.splits)
  from assms(2) gen route obtain nodes2 completed where
    proc: "process_all_nodes (clock s) dt nodes1 = Inr (nodes2, completed)"
    by (auto simp add: sim_step_def Let_def dt_def nodes_def split: sum.splits)
  from assms(2) gen route proc have
    top: "topology s' = nodes2"
    and met: "metrics s'
      = step_advance (record_queue_lengths (record_completed m1 completed) nodes2)"
    by (auto simp add: sim_step_def Let_def dt_def nodes_def)
  from assms(1) have
    a: "total_generated (metrics s)
          = total_admitted (metrics s) + total_rejected (metrics s) + total_dropped (metrics s)"
    and b: "total_admitted (metrics s)
          = total_completed (metrics s) + int (in_system (topology s))"
    by (simp_all add: counters_ok_def)
  from route_requests_counts [OF route] have
    r: "total_generated m1 = total_generated (metrics s) + int (length new)"
      "total_completed m1 = total_completed (metrics s)"
      "total_admitted m1 + total_rejected m1 + total_dropped m1
         = total_admitted (metrics s) + total_rejected (metrics s) + total_dropped (metrics s)
           + int (length new)"
      "total_admitted m1 + int (in_system nodes) = total_admitted (metrics s) + int (in_system nodes1)"
    by (simp_all add: record_generated_counters)
  from process_all_nodes_counts [OF proc]
  have p: "int (in_system nodes1) = int (in_system nodes2) + int (length completed)"
    by simp
  have n: "in_system nodes = in_system (topology s)"
    unfolding nodes_def by (rule in_system_reset)
  from a b r p n show ?thesis
    unfolding counters_ok_def top met
    by (simp add: step_advance_counters record_queue_lengths_counters
          record_completed_counters)
qed

lemma run_steps_counters:
  "counters_ok (metrics s) (topology s) \<Longrightarrow> run_steps k s = Inr s' \<Longrightarrow>
     counters_ok (metrics s') (topology s')"
proof (induction k arbitrary: s)
  case 0
  then show ?case by simp
next
  case (Suc k)
  show ?case
  proof (cases "clock s < cfg_sim_time (config s)")
    case False
    with Suc.prems show ?thesis by simp
  next
    case True
    with Suc.prems obtain s1 where one: "sim_step s = Inr s1"
      and rest: "run_steps k s1 = Inr s'"
      by (cases "sim_step s") auto
    from Suc.IH [OF sim_step_counters [OF Suc.prems(1) one] rest] show ?thesis .
  qed
qed

lemma init_counters:
  assumes "Simulation_init cfg g = Inr s"
  shows "counters_ok (metrics s) (topology s)"
proof -
  from assms obtain nodes where b: "build_grid_topology cfg = Inr nodes"
    and top: "topology s = nodes" and met: "metrics s = MetricsCollector_init"
    by (auto simp add: Simulation_init_def split: sum.splits)
  have empty: "held (grid_node cfg i cell) = []" for i cell
    by (simp add: grid_node_def held_def FogNode_init_def Let_def)
  from b have "\<forall>n \<in> set nodes. held n = []"
    by (auto simp add: build_grid_topology_def Let_def empty split: if_splits)
  then have "in_system nodes = 0"
    by (simp add: in_system_def)
  then show ?thesis
    by (simp add: counters_ok_def top met MetricsCollector_init_def)
qed

text \<open>
  Claim C4. At every step boundary of a run (the state after any number \<open>k\<close> of
  iterations of the loop of \<open>run\<close> that returned), the counters satisfy \<open>total_generated =
  total_admitted + total_rejected + total_dropped\<close> and \<open>total_completed \<le>
  total_admitted\<close>; the difference \<open>total_admitted - total_completed\<close> is the number of
  requests the nodes hold. Between two step boundaries \<open>total_completed\<close> changes only in
  \<open>record_completed\<close> at the end of the iteration, so the second inequality also holds
  after every request routed in the next iteration: after any number \<open>j\<close> of the generated
  requests have been routed, \<open>total_completed \<le> total_admitted\<close>.
\<close>

theorem counters_conserved:
  assumes "run_from cfg g k = Inr s"
  shows "total_generated (metrics s)
       = total_admitted (metrics s) + total_rejected (metrics s) + total_dropped (metrics s)
    \<and> total_completed (metrics s) \<le> total_admitted (metrics s)
    \<and> total_admitted (metrics s) - total_completed (metrics s) = int (in_system (topology s))
    \<and> (\<forall>new gen' g' j nodes1 m1.
          generate_requests (config s) (generator s) (random_state s) (clock s)
            = (new, gen', g')
          \<and> route_requests (step_length (config s)) (take j new)
               (map reset_step_state (topology s), record_generated (metrics s) new)
              = Inr (nodes1, m1)
          \<longrightarrow> total_completed m1 \<le> total_admitted m1)"
proof -
  from assms obtain s0 where init: "Simulation_init cfg g = Inr s0"
    and run: "run_steps k s0 = Inr s"
    by (auto simp add: run_from_def split: sum.splits)
  from run_steps_counters [OF init_counters [OF init] run]
  have ok: "counters_ok (metrics s) (topology s)" .
  then have a: "total_generated (metrics s)
       = total_admitted (metrics s) + total_rejected (metrics s) + total_dropped (metrics s)"
    and b: "total_admitted (metrics s) = total_completed (metrics s) + int (in_system (topology s))"
    by (simp_all add: counters_ok_def)
  from b have c: "total_completed (metrics s) \<le> total_admitted (metrics s)" by simp
  from b have d: "total_admitted (metrics s) - total_completed (metrics s)
      = int (in_system (topology s))" by simp
  have e: "\<forall>new gen' g' j nodes1 m1.
          generate_requests (config s) (generator s) (random_state s) (clock s)
            = (new, gen', g')
          \<and> route_requests (step_length (config s)) (take j new)
               (map reset_step_state (topology s), record_generated (metrics s) new)
              = Inr (nodes1, m1)
          \<longrightarrow> total_completed m1 \<le> total_admitted m1"
  proof (intro allI impI)
    fix new gen' g' j nodes1 m1
    assume "generate_requests (config s) (generator s) (random_state s) (clock s)
            = (new, gen', g')
          \<and> route_requests (step_length (config s)) (take j new)
               (map reset_step_state (topology s), record_generated (metrics s) new)
              = Inr (nodes1, m1)"
    then have route: "route_requests (step_length (config s)) (take j new)
               (map reset_step_state (topology s), record_generated (metrics s) new)
              = Inr (nodes1, m1)" by simp
    from route_requests_counts [OF route] have
      "total_completed m1 = total_completed (metrics s)"
      "total_admitted (metrics s) \<le> total_admitted m1"
      by (simp_all add: record_generated_counters)
    with c show "total_completed m1 \<le> total_admitted m1" by simp
  qed
  from a c d e show ?thesis by (intro conjI)
qed

text \<open>
  The theorem at the run of two steps of one FIFO node with one arrival per step: both
  requests are admitted, the first has completed, and the second is held by the node.
\<close>

theorem counters_conserved_witness:
  "map_sum id (\<lambda>s. (total_generated (metrics s), total_admitted (metrics s),
          total_rejected (metrics s), total_dropped (metrics s), total_completed (metrics s),
          in_system (topology s)))
     (run_from ex_config_arrivals ex_rng 2) = Inr (2, 2, 0, 0, 1, 1)"
proof -
  have "map_sum id (\<lambda>s. (total_generated (metrics s), total_admitted (metrics s),
          total_rejected (metrics s), total_dropped (metrics s), total_completed (metrics s)))
     (run_from ex_config_arrivals ex_rng 2) = Inr (2, 2, 0, 0, 1)"
    by (simp add: run_from_def Simulation_init_def build_grid_topology_def
       ex_config_arrivals_def default_config_def Let_def upto.simps grid_node_def
       FogNode_init_def RequestGenerator_init_def initial_type_probabilities_def
       MetricsCollector_init_def numeral_2_eq_2 sim_step_def step_length_def
       reset_step_state_def generate_requests_def process_one_step_def is_sla_def
       record_generated_def record_completed_def record_completed_one_def latency_def
       record_queue_lengths_def queue_length_def get_total_queue_length_def step_advance_def
       ex_rng_def random_random_def random_uniform_def sample_request_type_def
       defaults_for_type_def priority_class_for_type_def relative_deadline_for_type_def
       route_request_def get_nearest_fog_def nearest_step_def can_accept_request_def
       enqueue_request_def add_link_load_def)
  then obtain s where s: "run_from ex_config_arrivals ex_rng 2 = Inr s"
    and vals: "total_generated (metrics s) = 2" "total_admitted (metrics s) = 2"
      "total_rejected (metrics s) = 0" "total_dropped (metrics s) = 0"
      "total_completed (metrics s) = 1"
    by (cases "run_from ex_config_arrivals ex_rng 2") auto
  from counters_conserved [OF s] vals have "int (in_system (topology s)) = 1" by simp
  with s vals show ?thesis by simp
qed

end
